theory Spec2Isabelle
  imports Main "HOL-Library.FSet"
begin

section \<open>Python strings\<close>

text \<open>
  A Python \<open>str\<close> is modelled as a \<open>string\<close>: every character is an 8-bit code point
  (the Latin-1 range), and \<open>length\<close> counts characters as \<open>len\<close> does there.
\<close>

text \<open>\<open>str.isspace\<close> on one character, which is also the class \<open>\s\<close> of the \<open>re\<close> module.\<close>

definition is_space :: "char \<Rightarrow> bool" where
  "is_space c =
     (c \<in> set [CHR 0x09, CHR 0x0A, CHR 0x0B, CHR 0x0C, CHR 0x0D, CHR 0x1C, CHR 0x1D,
                CHR 0x1E, CHR 0x1F, CHR 0x20, CHR 0x85, CHR 0xA0])"

text \<open>\<open>s.strip()\<close>\<close>

definition py_strip :: "string \<Rightarrow> string" where
  "py_strip s = rev (dropWhile is_space (rev (dropWhile is_space s)))"

text \<open>\<open>s.lower()\<close>: the letters A-Z and the upper-case letters of Latin-1 move up by 32.\<close>

definition lower_char :: "char \<Rightarrow> char" where
  "lower_char c =
     (let n = (of_char c :: nat)
      in if (65 \<le> n \<and> n \<le> 90) \<or> (192 \<le> n \<and> n \<le> 222 \<and> n \<noteq> 215)
         then char_of (n + 32) else c)"

definition py_lower :: "string \<Rightarrow> string" where
  "py_lower s = map lower_char s"

text \<open>\<open>s.startswith(p)\<close>\<close>

definition startswith :: "string \<Rightarrow> string \<Rightarrow> bool" where
  "startswith s p = (take (length p) s = p)"

text \<open>\<open>sub in s\<close>\<close>

fun py_in :: "string \<Rightarrow> string \<Rightarrow> bool" where
  "py_in sub [] = (sub = [])"
| "py_in sub (c # cs) = (startswith (c # cs) sub \<or> py_in sub cs)"

text \<open>\<open>s.find(sub)\<close>, with \<open>None\<close> for the result \<open>-1\<close>.\<close>

fun py_find :: "string \<Rightarrow> string \<Rightarrow> nat option" where
  "py_find [] sub = (if sub = [] then Some 0 else None)"
| "py_find (c # cs) sub =
     (if startswith (c # cs) sub then Some 0 else map_option Suc (py_find cs sub))"

text \<open>
  \<open>s.replace(old, new)\<close>: occurrences are replaced from the left and do not overlap; an
  empty \<open>old\<close> matches before every character and at the end.
\<close>

function replace_nonempty :: "string \<Rightarrow> string \<Rightarrow> string \<Rightarrow> string" where
  "replace_nonempty old new [] = []"
| "replace_nonempty old new (c # cs) =
     (if startswith (c # cs) old
      then new @ replace_nonempty old new (drop (length old - 1) cs)
      else c # replace_nonempty old new cs)"
  by pat_completeness auto
termination
  by (relation "measure (\<lambda>(old, new, s). length s)") auto

definition py_replace :: "string \<Rightarrow> string \<Rightarrow> string \<Rightarrow> string" where
  "py_replace s old new =
     (if old = [] then new @ concat (map (\<lambda>c. c # new) s) else replace_nonempty old new s)"

text \<open>\<open>a or b\<close> on values that may be \<open>None\<close> or the empty string.\<close>

fun py_or :: "string option \<Rightarrow> string option \<Rightarrow> string option" where
  "py_or None b = b"
| "py_or (Some a) b = (if a = [] then b else Some a)"

text \<open>\<open>x or ""\<close>\<close>

fun or_empty :: "string option \<Rightarrow> string" where
  "or_empty None = []"
| "or_empty (Some a) = a"

section \<open>The sanitizer of the model's output (gen\_alpha.py)\<close>

datatype sanitize_error = NoJsonFound | UnbalancedOutput

text \<open>
  The first alternative of the pattern at the start of \<open>s\<close>: the fence marker, \<open>json\<close> in
  any case, all the white space that follows, and the text up to the next fence marker.
  Giving back white space cannot make a failed match succeed, because a fence marker does
  not start at a white-space character.
\<close>

definition match_json_fence :: "string \<Rightarrow> string option" where
  "match_json_fence s =
     (if py_lower (take 7 s) = ''```json''
      then (let r = dropWhile is_space (drop 7 s)
            in map_option (\<lambda>k. take k r) (py_find r ''```''))
      else None)"

text \<open>The second alternative: a fence marker and the text up to the next one.\<close>

definition match_plain_fence :: "string \<Rightarrow> string option" where
  "match_plain_fence s =
     (if startswith s ''```''
      then (let r = drop 3 s in map_option (\<lambda>k. take k r) (py_find r ''```''))
      else None)"

text \<open>
  \<open>re.search\<close> of the fence pattern with \<open>re.IGNORECASE\<close>: the leftmost position where one
  of the alternatives matches, the first alternative tried first; the result is the pair of
  the groups 1 and 2.
\<close>

fun fence_search :: "string \<Rightarrow> (string option \<times> string option) option" where
  "fence_search [] = None"
| "fence_search (c # cs) =
     (case match_json_fence (c # cs) of
        Some g \<Rightarrow> Some (Some g, None)
      | None \<Rightarrow>
          (case match_plain_fence (c # cs) of
             Some g \<Rightarrow> Some (None, Some g)
           | None \<Rightarrow> fence_search cs))"

text \<open>Step 1 of the source: the inner text of the first fence, or the whole text.\<close>

definition fenced_text :: "string \<Rightarrow> string" where
  "fenced_text text =
     (case fence_search text of
        Some (g1, g2) \<Rightarrow> py_strip (or_empty (py_or g1 (py_or g2 (Some []))))
      | None \<Rightarrow> py_strip text)"

text \<open>Step 2: a tiny result falls back to the original text without the fence markers.\<close>

definition unfenced_text :: "string \<Rightarrow> string" where
  "unfenced_text text =
     (let text_to_parse = fenced_text text
      in if length text_to_parse < 5 \<and> length text > 10
         then py_strip (py_replace text ''```'' [])
         else text_to_parse)"

text \<open>Step 3: triple double quotes become one double quote.\<close>

definition text_to_parse :: "string \<Rightarrow> string" where
  "text_to_parse text = py_replace (unfenced_text text) [CHR 0x22, CHR 0x22, CHR 0x22] [CHR 0x22]"

text \<open>
  The balancing scan: \<open>depth\<close> and the index \<open>i\<close> are the loop variables, and \<open>None\<close> is
  the value \<open>-1\<close> that \<open>end_index\<close> keeps when the loop ends without \<open>break\<close>.
\<close>

fun brace_scan :: "string \<Rightarrow> int \<Rightarrow> nat \<Rightarrow> nat option" where
  "brace_scan [] depth i = None"
| "brace_scan (ch # rest) depth i =
     (if ch = CHR ''{'' then brace_scan rest (depth + 1) (i + 1)
      else if ch = CHR ''}''
        then (if depth - 1 = 0 then Some i else brace_scan rest (depth - 1) (i + 1))
      else brace_scan rest depth (i + 1))"

definition sanitize_llm_output :: "string \<Rightarrow> sanitize_error + string" where
  "sanitize_llm_output text =
     (case py_find (text_to_parse text) ''{'' of
        None \<Rightarrow> Inl NoJsonFound
      | Some start \<Rightarrow>
          (let t = drop start (text_to_parse text)
           in case brace_scan t 0 0 of
                None \<Rightarrow> Inl UnbalancedOutput
              | Some end_index \<Rightarrow> Inr (take (end_index + 1) t)))"

text \<open>
  The brace depth of a text in the words of the specification: plus one for every opening
  brace, minus one for every closing brace.
\<close>

definition brace_depth :: "string \<Rightarrow> int" where
  "brace_depth s =
     int (length (filter (\<lambda>c. c = CHR ''{'') s)) - int (length (filter (\<lambda>c. c = CHR ''}'') s))"

text \<open>The text that the balancing scan reads: from the first opening brace on.\<close>

definition from_first_brace :: "string \<Rightarrow> string" where
  "from_first_brace t = dropWhile (\<lambda>c. c \<noteq> CHR ''{'') t"

section \<open>JSON values\<close>

text \<open>
  The values that \<open>json.loads\<close> returns: \<open>None\<close>, booleans, integers, strings, lists and
  dictionaries (in the order of the text).
\<close>

datatype json =
  JNull
| JBool bool
| JInt int
| JString string
| JArray "json list"
| JObject "(string \<times> json) list"

text \<open>
  A reference parser for the part of JSON without fractions, exponents and \<open>\u\<close> escapes.
  It is used to read a sanitized text back; \<open>None\<close> stands for a text that is malformed or
  outside this part.
\<close>

definition json_ws :: "char \<Rightarrow> bool" where
  "json_ws c = (c \<in> set [CHR 0x20, CHR 0x09, CHR 0x0A, CHR 0x0D])"

definition skip_ws :: "string \<Rightarrow> string" where
  "skip_ws s = dropWhile json_ws s"

definition unescape :: "char \<Rightarrow> char option" where
  "unescape e =
     (if e = CHR 0x22 then Some (CHR 0x22)
      else if e = CHR 0x5C then Some (CHR 0x5C)
      else if e = CHR ''/'' then Some (CHR ''/'')
      else if e = CHR ''b'' then Some (CHR 0x08)
      else if e = CHR ''f'' then Some (CHR 0x0C)
      else if e = CHR ''n'' then Some (CHR 0x0A)
      else if e = CHR ''r'' then Some (CHR 0x0D)
      else if e = CHR ''t'' then Some (CHR 0x09)
      else None)"

text \<open>The characters of a string literal after its opening quote, and the rest of the text.\<close>

fun parse_string :: "string \<Rightarrow> (string \<times> string) option" where
  "parse_string [] = None"
| "parse_string [c] = (if c = CHR 0x22 then Some ([], []) else None)"
| "parse_string (c # e # r) =
     (if c = CHR 0x22 then Some ([], e # r)
      else if c = CHR 0x5C then
        (case unescape e of
           None \<Rightarrow> None
         | Some ch \<Rightarrow> map_option (\<lambda>(s, rest). (ch # s, rest)) (parse_string r))
      else if (of_char c :: nat) < 32 then None
      else map_option (\<lambda>(s, rest). (c # s, rest)) (parse_string (e # r)))"

definition is_digit :: "char \<Rightarrow> bool" where
  "is_digit c = (48 \<le> (of_char c :: nat) \<and> (of_char c :: nat) \<le> 57)"

definition digits_value :: "string \<Rightarrow> int" where
  "digits_value ds = foldl (\<lambda>a d. 10 * a + (int (of_char d) - 48)) 0 ds"

definition parse_int :: "string \<Rightarrow> (json \<times> string) option" where
  "parse_int s =
     (let neg = startswith s ''-'';
          r = (if neg then drop 1 s else s);
          ds = takeWhile is_digit r;
          rest = dropWhile is_digit r
      in if ds = [] \<or> (length ds > 1 \<and> startswith ds ''0'')
            \<or> startswith rest ''.'' \<or> startswith rest ''e'' \<or> startswith rest ''E''
         then None
         else Some (JInt (if neg then - digits_value ds else digits_value ds), rest))"

text \<open>
  The recursive descent, with the number of nested calls bounded by the first argument:
  \<open>parse_members\<close> reads the entries of an object from a key on, \<open>parse_elements\<close> the
  elements of an array.
\<close>

fun parse_value :: "nat \<Rightarrow> string \<Rightarrow> (json \<times> string) option"
  and parse_members :: "nat \<Rightarrow> (string \<times> json) list \<Rightarrow> string \<Rightarrow> (json \<times> string) option"
  and parse_elements :: "nat \<Rightarrow> json list \<Rightarrow> string \<Rightarrow> (json \<times> string) option" where
  "parse_value 0 s = None"
| "parse_value (Suc n) s =
     (case skip_ws s of
        [] \<Rightarrow> None
      | c # cs \<Rightarrow>
          if c = CHR ''{'' then
            (if startswith (skip_ws cs) ''}'' then Some (JObject [], drop 1 (skip_ws cs))
             else parse_members n [] (skip_ws cs))
          else if c = CHR ''['' then
            (if startswith (skip_ws cs) '']'' then Some (JArray [], drop 1 (skip_ws cs))
             else parse_elements n [] cs)
          else if c = CHR 0x22 then map_option (\<lambda>(str, rest). (JString str, rest)) (parse_string cs)
          else if startswith (c # cs) ''true'' then Some (JBool True, drop 4 (c # cs))
          else if startswith (c # cs) ''false'' then Some (JBool False, drop 5 (c # cs))
          else if startswith (c # cs) ''null'' then Some (JNull, drop 4 (c # cs))
          else parse_int (c # cs))"
| "parse_members 0 acc s = None"
| "parse_members (Suc n) acc s =
     (if startswith s [CHR 0x22] then
        (case parse_string (drop 1 s) of
           None \<Rightarrow> None
         | Some (k, r1) \<Rightarrow>
             if startswith (skip_ws r1) '':'' then
               (case parse_value n (drop 1 (skip_ws r1)) of
                  None \<Rightarrow> None
                | Some (v, r2) \<Rightarrow>
                    if startswith (skip_ws r2) '','' then
                      parse_members n (acc @ [(k, v)]) (skip_ws (drop 1 (skip_ws r2)))
                    else if startswith (skip_ws r2) ''}'' then
                      Some (JObject (acc @ [(k, v)]), drop 1 (skip_ws r2))
                    else None)
             else None)
      else None)"
| "parse_elements 0 acc s = None"
| "parse_elements (Suc n) acc s =
     (case parse_value n s of
        None \<Rightarrow> None
      | Some (v, r) \<Rightarrow>
          if startswith (skip_ws r) '','' then parse_elements n (acc @ [v]) (drop 1 (skip_ws r))
          else if startswith (skip_ws r) '']'' then Some (JArray (acc @ [v]), drop 1 (skip_ws r))
          else None)"

text \<open>The whole text is one value, with white space around it.\<close>

definition json_parse :: "string \<Rightarrow> json option" where
  "json_parse s =
     (case parse_value (Suc (length s)) s of
        None \<Rightarrow> None
      | Some (v, rest) \<Rightarrow> if skip_ws rest = [] then Some v else None)"


section \<open>The default files and the prompt template (gen\_alpha.py)\<close>

text \<open>The values of \<open>DEFAULT_FILES\<close>, one constant for each file.\<close>

definition default_server_py :: string where
  \<open>default_server_py =
     ''import os\<newline>'' @
     ''from flask import Flask, send_from_directory, jsonify, request\<newline>'' @
     ''from flask_cors import CORS\<newline>'' @
     ''\<newline>'' @
     ''# Set static_folder=None, relying solely on serve_frontend for asset handling.\<newline>'' @
     ''app = Flask(__name__, static_folder=None)\<newline>'' @
     ''CORS(app)\<newline>'' @
     ''\<newline>'' @
     ''@app.route(\'/api/data\', methods=[\'GET\'])\<newline>'' @
     ''def api_data():\<newline>'' @
     ''    sample = {\'message\': \'Hello from Flask backend\', \'ok\': True}\<newline>'' @
     ''    return jsonify(sample)\<newline>'' @
     ''\<newline>'' @
     ''@app.route(\'/api/<path:subpath>\', methods=[\'GET\',\'POST\'])\<newline>'' @
     ''def api_proxy(subpath):\<newline>'' @
     ''    # Simple example endpoint: echoes path and query/body for easy testing.\<newline>'' @
     ''    info = {\<newline>'' @
     ''        \'requested_path\': subpath,\<newline>'' @
     ''        \'method\': request.method,\<newline>'' @
     ''        \'args\': request.args.to_dict(),\<newline>'' @
     ''    }\<newline>'' @
     ''    try:\<newline>'' @
     ''        info[\'json\'] = request.get_json(silent=True)\<newline>'' @
     ''    except Exception:\<newline>'' @
     ''        info[\'json\'] = None\<newline>'' @
     ''    return jsonify(info)\<newline>'' @
     ''\<newline>'' @
     ''@app.route(\'/\', defaults={\'path\': '' @ [CHR 0x27] @ ''\'})\<newline>'' @
     ''@app.route(\'/<path:path>\')\<newline>'' @
     ''def serve_frontend(path):\<newline>'' @
     ''    \<newline>'' @
     ''    Serves the built frontend assets (JS/CSS/Index.html) from the frontend/dist directory.\<newline>'' @
     ''    This acts as the Single Page Application (SPA) catch-all.\<newline>'' @
     ''    \<newline>'' @
     ''    # Define the directory where Vite places its production output\<newline>'' @
     ''    dist_dir = os.path.join(os.getcwd(), \'frontend\', \'dist\')\<newline>'' @
     ''    \<newline>'' @
     ''    # Construct the full path to the requested file (e.g., assets/index-xxx.js)\<newline>'' @
     ''    requested_file = os.path.join(dist_dir, path)\<newline>'' @
     ''\<newline>'' @
     ''    # 1. If a specific asset file is requested and exists (handles assets/foo.js)\<newline>'' @
     ''    if path != '' @ [CHR 0x27] @ ''\' and os.path.exists(requested_file):\<newline>'' @
     ''        # Serve the file by using its directory and filename\<newline>'' @
     ''        directory = os.path.dirname(requested_file)\<newline>'' @
     ''        filename = os.path.basename(requested_file)\<newline>'' @
     ''        return send_from_directory(directory, filename)\<newline>'' @
     ''\<newline>'' @
     ''    # 2. If path is root or asset not found, serve the main index.html (SPA fallback)\<newline>'' @
     ''    index_path = os.path.join(dist_dir, \'index.html\')\<newline>'' @
     ''    if os.path.exists(index_path):\<newline>'' @
     ''        return send_from_directory(dist_dir, \'index.html\')\<newline>'' @
     ''        \<newline>'' @
     ''    # 3. Fallback message if the build hasn\'t been run\<newline>'' @
     ''    return jsonify({\'message\': \'Frontend build not found. Run `cd frontend && npm install && npm run build`.\'}), 200\<newline>'' @
     ''\<newline>'' @
     ''if __name__ == \'__main__\':\<newline>'' @
     ''    # Use 0.0.0.0 for easier local testing in containers/VMs if needed\<newline>'' @
     ''    app.run(host=\'0.0.0.0\', port=int(os.environ.get(\'PORT\', 5000)), debug=True)\<newline>''\<close>

definition default_requirements_txt :: string where
  \<open>default_requirements_txt =
     ''flask\<newline>'' @
     ''flask_cors\<newline>''\<close>

definition default_package_json :: string where
  \<open>default_package_json =
     ''{\<newline>'' @
     ''  "name": "react-app",\<newline>'' @
     ''  "version": "1.0.0",\<newline>'' @
     ''  "private": true,\<newline>'' @
     ''  "scripts": {\<newline>'' @
     ''    "dev": "vite",\<newline>'' @
     ''    "build": "vite build",\<newline>'' @
     ''    "preview": "vite preview"\<newline>'' @
     ''  },\<newline>'' @
     ''  "dependencies": {\<newline>'' @
     ''    "react": "^18.0.0",\<newline>'' @
     ''    "react-dom": "^18.0.0"\<newline>'' @
     ''  },\<newline>'' @
     ''  "devDependencies": {\<newline>'' @
     ''    "vite": "^5.0.0",\<newline>'' @
     ''    "@vitejs/plugin-react": "^4.0.0"\<newline>'' @
     ''  }\<newline>'' @
     ''}''\<close>

definition default_vite_config_js :: string where
  \<open>default_vite_config_js =
     ''import { defineConfig } from \'vite\';\<newline>'' @
     ''import react from \'@vitejs/plugin-react\';\<newline>'' @
     ''export default defineConfig({ plugins: [react()] });\<newline>''\<close>

definition default_index_html :: string where
  \<open>default_index_html =
     ''<!doctype html>\<newline>'' @
     ''<html>\<newline>'' @
     ''  <head>\<newline>'' @
     ''    <meta charset="utf-8" />\<newline>'' @
     ''    <meta name="viewport" content="width=device-width, initial-scale=1.0" />\<newline>'' @
     ''    <title>Generated React App</title>\<newline>'' @
     ''  </head>\<newline>'' @
     ''  <body>\<newline>'' @
     ''    <div id="root"></div>\<newline>'' @
     ''    <!-- Vite will inject the production script reference here during \'npm run build\' -->\<newline>'' @
     ''  </body>\<newline>'' @
     ''</html>\<newline>''\<close>

definition default_main_jsx :: string where
  \<open>default_main_jsx =
     ''import React from \'react\';\<newline>'' @
     ''import { createRoot } from \'react-dom/client\';\<newline>'' @
     ''import App from \'./App.jsx\';\<newline>'' @
     ''\<newline>'' @
     ''createRoot(document.getElementById(\'root\')).render(\<newline>'' @
     ''  <React.StrictMode>\<newline>'' @
     ''    <App />\<newline>'' @
     ''  </React.StrictMode>\<newline>'' @
     '');\<newline>''\<close>

definition default_App_jsx :: string where
  \<open>default_App_jsx =
     ''import React, {useEffect, useState} from \'react\';\<newline>'' @
     ''import AutoLayout from \'./components/AutoLayout.jsx\';\<newline>'' @
     ''\<newline>'' @
     ''export default function App(){\<newline>'' @
     ''  const [data, setData] = useState(null);\<newline>'' @
     ''  useEffect(()=>{\<newline>'' @
     ''    fetch(\'/api/data\')\<newline>'' @
     ''      .then(r=>r.json())\<newline>'' @
     ''      .then(setData)\<newline>'' @
     ''      .catch(e=>setData({error: String(e)}));\<newline>'' @
     ''  }, []);\<newline>'' @
     ''  return (\<newline>'' @
     ''    <AutoLayout>\<newline>'' @
     ''      <h1>Generated React Frontend</h1>\<newline>'' @
     ''      <p>This is a functional fallback application. If the LLM generation was successful, this content should be replaced by the design extracted from the UX spec.</p>\<newline>'' @
     ''      <pre>{JSON.stringify(data, null, 2)}</pre>\<newline>'' @
     ''    </AutoLayout>\<newline>'' @
     ''  );\<newline>'' @
     ''}\<newline>''\<close>

definition default_AutoLayout_jsx :: string where
  \<open>default_AutoLayout_jsx =
     ''import React from \'react\';\<newline>'' @
     ''export default function AutoLayout({children}){\<newline>'' @
     ''  return (\<newline>'' @
     ''    <div style={{fontFamily:\'Arial, sans-serif\', padding:20}}>\<newline>'' @
     ''      {children}\<newline>'' @
     ''    </div>\<newline>'' @
     ''  );\<newline>'' @
     ''}\<newline>''\<close>

definition default_README_md :: string where
  \<open>default_README_md =
     ''# React + Flask Generated App'' @ [CHR 0x5C] @ ''n'' @ [CHR 0x5C] @ ''n'' @
     ''## Backend'' @ [CHR 0x5C] @ ''n'' @
     ''1. Create a Python virtual environment and activate it.'' @ [CHR 0x5C] @ ''n'' @
     ''2. Install dependencies: `pip install -r requirements.txt`'' @ [CHR 0x5C] @ ''n'' @
     ''3. Run backend: `python server.py`'' @ [CHR 0x5C] @ ''n'' @ [CHR 0x5C] @ ''n'' @
     ''The backend exposes `/api/data` and `/api/<path>` endpoints, and serves the frontend build from `frontend/dist` if present.'' @ [CHR 0x5C] @ ''n'' @ [CHR 0x5C] @ ''n'' @
     ''## Frontend'' @ [CHR 0x5C] @ ''n'' @
     ''1. `cd frontend`'' @ [CHR 0x5C] @ ''n'' @
     ''2. `npm install`'' @ [CHR 0x5C] @ ''n'' @
     ''3. `npm run build` to create the production files.'' @ [CHR 0x5C] @ ''n'' @
     ''4. Then run the backend to serve the built app.'' @ [CHR 0x5C] @ ''n''\<close>

definition default_files_list :: "(string \<times> string) list" where
  "default_files_list =
     [(''server.py'', default_server_py),
      (''requirements.txt'', default_requirements_txt),
      (''frontend/package.json'', default_package_json),
      (''frontend/vite.config.js'', default_vite_config_js),
      (''frontend/index.html'', default_index_html),
      (''frontend/src/main.jsx'', default_main_jsx),
      (''frontend/src/App.jsx'', default_App_jsx),
      (''frontend/src/components/AutoLayout.jsx'', default_AutoLayout_jsx),
      (''README.md'', default_README_md)]"

definition DEFAULT_FILES :: "string \<rightharpoonup> string" where
  "DEFAULT_FILES = map_of default_files_list"

text \<open>The two parts of the template of \<open>build_prompt_from_spec\<close>, around the serialized UX spec.\<close>

definition prompt_head :: string where
  \<open>prompt_head =
     ''You MUST output ONLY valid JSON.\<newline>'' @
     ''NO markdown. NO ``` blocks. NO commentary. NO triple quotes.\<newline>'' @
     ''\<newline>'' @
     ''RULES:\<newline>'' @
     ''- Output a single JSON object with top-level key "files".\<newline>'' @
     ''- Each file value MUST be a JSON string containing '' @ [CHR 0x5C] @ ''n'' @
     '' newlines.\<newline>'' @
     ''- The content of server.py must fully support serving the React build.\<newline>'' @
     ''- The frontend/index.html MUST NOT contain a reference to /src/main.jsx, as Vite injects the production build script automatically.\<newline>'' @
     ''- NEVER use markdown formatting.\<newline>'' @
     ''- NEVER wrap code in backticks.\<newline>'' @
     ''- NEVER output extra explanation outside JSON.\<newline>'' @
     ''\<newline>'' @
     ''GENERATE THIS PROJECT STRUCTURE:\<newline>'' @
     ''\<newline>'' @
     ''1. Backend (Flask):\<newline>'' @
     ''   - server.py:\<newline>'' @
     ''        * serves API at /api/*\<newline>'' @
     ''        * React build served from /frontend/dist using a custom route (static_folder=None)\<newline>'' @
     ''        * fallback route returns index.html\<newline>'' @
     ''\<newline>'' @
     ''2. requirements.txt:\<newline>'' @
     ''        flask\<newline>'' @
     ''        flask_cors\<newline>'' @
     ''\<newline>'' @
     ''3. React Frontend (Vite + React):\<newline>'' @
     ''   folder: frontend/\<newline>'' @
     ''\<newline>'' @
     ''   MUST INCLUDE:\<newline>'' @
     ''   - frontend/package.json\<newline>'' @
     ''   - frontend/vite.config.js\<newline>'' @
     ''   - frontend/index.html\<newline>'' @
     ''   - frontend/src/main.jsx\<newline>'' @
     ''   - frontend/src/App.jsx\<newline>'' @
     ''   - frontend/src/components/AutoLayout.jsx\<newline>'' @
     ''\<newline>'' @
     ''   App.jsx should fetch /api/data and render components based on the UX SPEC.\<newline>'' @
     ''\<newline>'' @
     ''4. README.md: instructions for backend + frontend setup\<newline>'' @
     ''\<newline>'' @
     ''UX SPEC FOR CONTEXT (Use this to design the front-end components and layout in App.jsx):\<newline>''\<close>

definition prompt_tail :: string where
  \<open>prompt_tail =
     ''\<newline>'' @
     ''\<newline>'' @
     ''OUTPUT EXACTLY AS JSON:\<newline>'' @
     ''{\<newline>'' @
     ''  "files": {\<newline>'' @
     ''    "server.py": "...",\<newline>'' @
     ''    "requirements.txt": "...",\<newline>'' @
     ''    "frontend/package.json": "...",\<newline>'' @
     ''    "frontend/vite.config.js": "...",\<newline>'' @
     ''    "frontend/index.html": "...",\<newline>'' @
     ''    "frontend/src/main.jsx": "...",\<newline>'' @
     ''    "frontend/src/App.jsx": "...",\<newline>'' @
     ''    "frontend/src/components/AutoLayout.jsx": "...",\<newline>'' @
     ''    "README.md": "..."\<newline>'' @
     ''  }\<newline>'' @
     ''}\<newline>''\<close>

section \<open>The parsed document and the component extractor (extractor.py)\<close>

text \<open>
  The tree that \<open>BeautifulSoup(html, "html.parser")\<close> builds: an element with its
  (lower-case) name, its attributes and its children; a string of the text; and a string
  that \<open>get_text\<close> leaves out (a comment, a declaration). The document itself is an
  element whose children are the top-level nodes.
\<close>

datatype node =
  Element string "(string \<times> string) list" "node list"
| Text string
| Hidden string

fun is_element :: "node \<Rightarrow> bool" where
  "is_element (Element n a cs) = True"
| "is_element (Text s) = False"
| "is_element (Hidden s) = False"

text \<open>\<open>tag.name\<close>\<close>

fun tag_name :: "node \<Rightarrow> string" where
  "tag_name (Element n a cs) = n"
| "tag_name (Text s) = []"
| "tag_name (Hidden s) = []"

text \<open>\<open>tag.get(key)\<close>\<close>

fun attr :: "node \<Rightarrow> string \<Rightarrow> string option" where
  "attr (Element n a cs) key = map_of a key"
| "attr (Text s) key = None"
| "attr (Hidden s) key = None"

text \<open>All nodes below a node, in document order.\<close>

fun descendants :: "node \<Rightarrow> node list" where
  "descendants (Element n a cs) = concat (map (\<lambda>c. c # descendants c) cs)"
| "descendants (Text s) = []"
| "descendants (Hidden s) = []"

text \<open>\<open>tag.find_all(names)\<close>: the elements below the node with one of the names.\<close>

definition find_all :: "string list \<Rightarrow> node \<Rightarrow> node list" where
  "find_all names root = filter (\<lambda>n. is_element n \<and> tag_name n \<in> set names) (descendants root)"

text \<open>\<open>tag.find_all(name, href=True)\<close>: those that have the attribute.\<close>

definition find_all_with :: "string \<Rightarrow> string \<Rightarrow> node \<Rightarrow> node list" where
  "find_all_with name key root = filter (\<lambda>n. attr n key \<noteq> None) (find_all [name] root)"

text \<open>\<open>tag.find(name, {key: v})\<close> as a truth value: is there such an element?\<close>

definition find_attr :: "string \<Rightarrow> string \<Rightarrow> string \<Rightarrow> node \<Rightarrow> bool" where
  "find_attr name key v root = list_ex (\<lambda>n. attr n key = Some v) (find_all [name] root)"

text \<open>The strings of the text below a node, in document order.\<close>

fun strings :: "node \<Rightarrow> string list" where
  "strings (Element n a cs) = concat (map strings cs)"
| "strings (Text s) = [s]"
| "strings (Hidden s) = []"

text \<open>\<open>tag.get_text()\<close>\<close>

definition get_text :: "node \<Rightarrow> string" where
  "get_text n = concat (strings n)"

text \<open>\<open>sep.join(parts)\<close>\<close>

fun py_join :: "string \<Rightarrow> string list \<Rightarrow> string" where
  "py_join sep [] = []"
| "py_join sep [p] = p"
| "py_join sep (p # q # ps) = p @ sep @ py_join sep (q # ps)"

text \<open>\<open>tag.get_text(separator=sep, strip=True)\<close>: stripped strings, the empty ones dropped.\<close>

definition get_text_strip :: "string \<Rightarrow> node \<Rightarrow> string" where
  "get_text_strip sep n = py_join sep (filter (\<lambda>s. s \<noteq> []) (map py_strip (strings n)))"

text \<open>\<open>tag.string\<close>: the string of a node with one child, through nested single children.\<close>

fun node_string :: "node \<Rightarrow> string option" where
  "node_string (Element n a [c]) = node_string c"
| "node_string (Element n a cs) = None"
| "node_string (Text s) = Some s"
| "node_string (Hidden s) = Some s"

text \<open>The values of a multi-valued attribute: the runs of characters other than white space.\<close>

definition attr_words :: "string \<Rightarrow> string list" where
  "attr_words s =
     filter (\<lambda>w. w \<noteq> [])
       (foldr (\<lambda>c acc. if is_space c then [] # acc else (c # hd acc) # tl acc) s [[]])"

record field =
  f_name :: "string option"
  f_type :: string
  f_placeholder :: string
  f_required :: bool

datatype component =
  Clickable (c_tag: string) (c_role: string) (c_input_type: string) (c_text: string)
    (c_id: "string option") (c_classes: "string list")
| Form "string option" "string option" string "field list"
| Nav "string list"
| ListC nat "string list"
| Table "string list" "string list list"
| Images nat "string option list"
| Headings "(string \<times> string) list"

fun is_clickable :: "component \<Rightarrow> bool" where
  "is_clickable (Clickable t r i x d c) = True"
| "is_clickable (Form d a m fs) = False"
| "is_clickable (Nav ls) = False"
| "is_clickable (ListC n items) = False"
| "is_clickable (Table hs rows) = False"
| "is_clickable (Images n srcs) = False"
| "is_clickable (Headings hs) = False"

text \<open>
  The dictionary that \<open>extract_components_from_html\<close> returns. The key \<open>features\<close> exists
  only when a feature was detected: the empty list stands for its absence.
\<close>

record page_spec =
  url :: "string option"
  title :: "string option"
  components :: "component list"
  features :: "string list"

text \<open>The first loop: one entry for each button, anchor and input element.\<close>

definition clickable_of :: "node \<Rightarrow> component" where
  "clickable_of b =
     (let tag = tag_name b;
          text = py_strip (or_empty
                   (py_or (Some (get_text b)) (py_or (attr b ''value'') (py_or (attr b ''aria-label'') (Some [])))));
          role = (if tag = ''a'' then ''link'' else if tag = ''button'' then ''button'' else ''input'');
          itype = or_empty (py_or (attr b ''type'') (Some []))
      in Clickable tag role itype (take 200 text) (attr b ''id'')
           (case attr b ''class'' of None \<Rightarrow> [] | Some c \<Rightarrow> attr_words c))"

fun clickable_loop :: "node list \<Rightarrow> component list \<Rightarrow> component list" where
  "clickable_loop [] comps = comps"
| "clickable_loop (b # bs) comps = clickable_loop bs (comps @ [clickable_of b])"

definition field_of :: "node \<Rightarrow> field" where
  "field_of inp =
     \<lparr>f_name = attr inp ''name'',
      f_type = or_empty (py_or (attr inp ''type'') (Some (tag_name inp))),
      f_placeholder = or_empty (py_or (attr inp ''placeholder'') (Some [])),
      f_required = (case attr inp ''required'' of None \<Rightarrow> False | Some v \<Rightarrow> v \<noteq> [])\<rparr>"

definition form_of :: "node \<Rightarrow> component" where
  "form_of form =
     Form (attr form ''id'') (attr form ''action'')
       (or_empty (py_or (attr form ''method'') (Some ''get'')))
       (map field_of (find_all [''input'', ''textarea'', ''select''] form))"

definition nav_of :: "node \<Rightarrow> component" where
  "nav_of nav = Nav (take 30 (map (get_text_strip []) (find_all_with ''a'' ''href'' nav)))"

definition list_of :: "node \<Rightarrow> component" where
  "list_of ul =
     (let items = map (get_text_strip []) (find_all [''li''] ul)
      in ListC (length items) (take 10 items))"

definition table_of :: "node \<Rightarrow> component" where
  "table_of table =
     Table (map (get_text_strip []) (find_all [''th''] table))
       (map (\<lambda>tr. map (get_text_strip []) (find_all [''td''] tr)) (take 5 (find_all [''tr''] table)))"

definition headings_of :: "node \<Rightarrow> (string \<times> string) list" where
  "headings_of soup =
     concat (map (\<lambda>h. map (\<lambda>tag. (h, take 150 (get_text_strip [] tag))) (find_all [h] soup))
               [''h1'', ''h2'', ''h3'', ''h4''])"

definition extract_components_from_html :: "node \<Rightarrow> string option \<Rightarrow> page_spec" where
  "extract_components_from_html soup u =
     (let comps1 = clickable_loop (find_all [''button'', ''a'', ''input''] soup) [];
          comps2 = comps1 @ map form_of (find_all [''form''] soup);
          comps3 = comps2 @ map nav_of (find_all [''nav''] soup);
          comps4 = comps3 @ map list_of (find_all [''ul'', ''ol''] soup);
          comps5 = comps4 @ map table_of (find_all [''table''] soup);
          imgs = find_all [''img''] soup;
          comps6 = (if imgs \<noteq> []
                    then comps5 @ [Images (length imgs) (map (\<lambda>img. attr img ''src'') (take 10 imgs))]
                    else comps5);
          headings = headings_of soup;
          comps7 = (if headings \<noteq> [] then comps6 @ [Headings (take 50 headings)] else comps6);
          features1 = (if find_attr ''input'' ''type'' ''password'' soup
                       then [''authentication/login_form_detected''] else []);
          features2 = (if find_attr ''input'' ''type'' ''search'' soup \<or> find_attr ''input'' ''name'' ''q'' soup
                       then features1 @ [''search_feature_detected''] else features1)
      in \<lparr>url = u,
          title = (case find_all [''title''] soup of [] \<Rightarrow> Some [] | t # ts \<Rightarrow> node_string t),
          components = comps7,
          features = features2\<rparr>)"

text \<open>
  The text of a clickable entry in the words of the specification: the visible text of
  the element, which is its text without the white space around it, or, when that is
  empty, its \<open>value\<close> attribute, or its \<open>aria-label\<close> attribute; cut to 200 characters.
\<close>

definition spec_clickable_text :: "node \<Rightarrow> string" where
  "spec_clickable_text b =
     take 200 (if py_strip (get_text b) \<noteq> [] then py_strip (get_text b)
               else if py_strip (or_empty (attr b ''value'')) \<noteq> []
                 then py_strip (or_empty (attr b ''value''))
               else py_strip (or_empty (attr b ''aria-label'')))"


section \<open>The scaffold generator (gen\_alpha.py)\<close>

text \<open>
  The aggregated UX spec: the domain and the pages. \<open>None\<close> is a missing key or the value
  \<open>None\<close>, which \<open>ux_spec.get("domain", "") or ""\<close> and \<open>p.get("title") or ""\<close> both read as
  the empty string.
\<close>

record ux_spec =
  domain :: "string option"
  pages :: "page_spec list"

definition PROPRIETARY_MARKERS_gen :: "string list" where
  "PROPRIETARY_MARKERS_gen =
     [''instagram'', ''facebook'', ''whatsapp'', ''uber'', ''airbnb'',
      ''tiktok'', ''twitter'', ''snapchat'', ''x.com'']"

definition likely_proprietary_spec :: "ux_spec \<Rightarrow> bool" where
  "likely_proprietary_spec spec =
     (if list_ex (\<lambda>x. py_in x (py_lower (or_empty (domain spec)))) PROPRIETARY_MARKERS_gen
      then True
      else list_ex (\<lambda>p. list_ex (\<lambda>x. py_in x (py_lower (or_empty (title p)))) PROPRIETARY_MARKERS_gen)
             (pages spec))"

text \<open>
  What the generator takes from outside: whether the model library could be imported, the
  chat call (\<open>None\<close> when it raises), and the library functions \<open>json.loads\<close> (\<open>None\<close> when it
  raises), \<open>json.dumps(v, indent=2)\<close> on a value and on the UX spec, \<open>str(v)\<close>, and the time
  stamp of the default archive name.
\<close>

record gateway =
  ollama_available :: bool
  ollama_chat :: "string \<Rightarrow> string \<Rightarrow> string option"
  loads :: "string \<Rightarrow> json option"
  dumps :: "json \<Rightarrow> string"
  dumps_spec :: "ux_spec \<Rightarrow> string"
  py_str :: "json \<Rightarrow> string"
  utcnow :: string

text \<open>\<open>build_prompt_from_spec\<close>; the source does not use its argument \<open>app_name\<close>.\<close>

definition build_prompt_from_spec :: "gateway \<Rightarrow> ux_spec \<Rightarrow> string \<Rightarrow> string" where
  "build_prompt_from_spec g spec app_name =
     (let ux_json = take 6000 (dumps_spec g spec)
      in prompt_head @ ux_json @ prompt_tail)"

datatype gen_error =
  PolicyViolation
| ModelUnavailable
| ChatFailed
| EmptyResponse
| SanitizeFailed sanitize_error
| MalformedJson
| MissingFilesKey

text \<open>What the generator does to the outside: a call of the model, an archive written.\<close>

datatype effect =
  ModelCall string string
| ZipWritten string "string \<rightharpoonup> string"

text \<open>
  \<open>call_ollama_for_files\<close>: the entries of the \<open>files\<close> object of the model's answer, in the
  order of the text, or the failure; with the calls made.
\<close>

definition files_of_parsed :: "json \<Rightarrow> gen_error + (string \<times> json) list" where
  "files_of_parsed parsed =
     (case parsed of
        JObject kvs \<Rightarrow>
          (case map_of (rev kvs) ''files'' of
             Some (JObject fs) \<Rightarrow> Inr fs
           | _ \<Rightarrow> Inl MissingFilesKey)
      | _ \<Rightarrow> Inl MissingFilesKey)"

definition call_ollama_for_files ::
  "gateway \<Rightarrow> string \<Rightarrow> string \<Rightarrow> effect list \<times> (gen_error + (string \<times> json) list)" where
  "call_ollama_for_files g prompt model =
     (if \<not> ollama_available g then ([], Inl ModelUnavailable)
      else
        ([ModelCall model prompt],
         (case ollama_chat g model prompt of
            None \<Rightarrow> Inl ChatFailed
          | Some raw \<Rightarrow>
              if raw = [] then Inl EmptyResponse
              else
                (case sanitize_llm_output raw of
                   Inl e \<Rightarrow> Inl (SanitizeFailed e)
                 | Inr clean \<Rightarrow>
                     (case loads g clean of
                        None \<Rightarrow> Inl MalformedJson
                      | Some parsed \<Rightarrow> files_of_parsed parsed)))))"

text \<open>The value stored for a model file: pretty JSON for a dictionary or list, \<open>str\<close> otherwise.\<close>

definition overlay_value :: "gateway \<Rightarrow> json \<Rightarrow> string" where
  "overlay_value g v =
     (case v of
        JObject kvs \<Rightarrow> dumps g v
      | JArray xs \<Rightarrow> dumps g v
      | JString s \<Rightarrow> s
      | _ \<Rightarrow> py_str g v)"

definition needed_frontend :: "string list" where
  "needed_frontend =
     [''frontend/package.json'',
      ''frontend/vite.config.js'',
      ''frontend/index.html'',
      ''frontend/src/main.jsx'',
      ''frontend/src/App.jsx'',
      ''frontend/src/components/AutoLayout.jsx'']"

text \<open>The loops of the merge: the model's entries over the defaults, then the frontend files.\<close>

fun overlay_loop :: "gateway \<Rightarrow> (string \<times> json) list \<Rightarrow> (string \<rightharpoonup> string) \<Rightarrow> (string \<rightharpoonup> string)" where
  "overlay_loop g [] final_files = final_files"
| "overlay_loop g ((k, v) # rest) final_files = overlay_loop g rest (final_files(k \<mapsto> overlay_value g v))"

fun frontend_loop :: "string list \<Rightarrow> (string \<rightharpoonup> string) \<Rightarrow> (string \<rightharpoonup> string)" where
  "frontend_loop [] final_files = final_files"
| "frontend_loop (fn # rest) final_files =
     frontend_loop rest
       (if final_files fn = None
        then final_files(fn \<mapsto> (case DEFAULT_FILES fn of None \<Rightarrow> [] | Some d \<Rightarrow> d))
        else final_files)"

text \<open>
  The merge of \<open>generate_scaffold\<close>, from the copy of the defaults to the last loop. The
  constants \<open>default_server_py\<close> and \<open>default_requirements_txt\<close> are the entries that
  \<open>DEFAULT_FILES["server.py"]\<close> and \<open>DEFAULT_FILES["requirements.txt"]\<close> read.
\<close>

definition assemble_files :: "gateway \<Rightarrow> (string \<times> json) list \<Rightarrow> (string \<rightharpoonup> string)" where
  "assemble_files g files =
     (let final1 = overlay_loop g files DEFAULT_FILES;
          sp = (case final1 ''server.py'' of None \<Rightarrow> [] | Some s \<Rightarrow> s);
          final2 = (if length (py_strip sp) < 50 \<or> CHR 0x0A \<notin> set sp
                    then final1(''server.py'' \<mapsto> default_server_py) else final1);
          final3 = (if (case final2 ''requirements.txt'' of None \<Rightarrow> True | Some r \<Rightarrow> py_strip r = [])
                    then final2(''requirements.txt'' \<mapsto> default_requirements_txt) else final2)
      in frontend_loop needed_frontend final3)"

text \<open>
  \<open>generate_scaffold\<close>: the effects in their order and the result, the path of the archive
  or the error raised. An empty or missing \<open>out_zip\<close> gives the name made from the
  application name and the time stamp.
\<close>

definition generate_scaffold ::
  "gateway \<Rightarrow> ux_spec \<Rightarrow> string \<Rightarrow> string \<Rightarrow> string option \<Rightarrow> effect list \<times> (gen_error + string)" where
  "generate_scaffold g spec app_name model out_zip =
     (if likely_proprietary_spec spec then ([], Inl PolicyViolation)
      else
        (let prompt = build_prompt_from_spec g spec app_name;
             (calls, outcome) = (if ollama_available g then call_ollama_for_files g prompt model
                                 else ([], Inr []));
             files = (case outcome of Inl e \<Rightarrow> [] | Inr fs \<Rightarrow> fs);
             final_files = assemble_files g files;
             out = (if or_empty out_zip = []
                    then py_replace app_name '' '' ''_'' @ ''_scaffold_'' @ utcnow g @ ''.zip''
                    else or_empty out_zip)
         in (calls @ [ZipWritten out final_files], Inr out)))"

text \<open>The model's version of a file: the value stored for the last entry with that name.\<close>

definition model_version :: "gateway \<Rightarrow> (string \<times> json) list \<Rightarrow> string \<Rightarrow> string option" where
  "model_version g files k = map_option (overlay_value g) (map_of (rev files) k)"

text \<open>
  A text contains a marker without regard to case: some part of the text and the marker
  have the same lower-case form.
\<close>

definition contains_ci :: "string \<Rightarrow> string \<Rightarrow> bool" where
  "contains_ci t m = (\<exists>pre x post. t = pre @ x @ post \<and> py_lower x = py_lower m)"


section \<open>The crawler (crawler.py)\<close>

text \<open>The answer of \<open>requests.get\<close>: an exception, or a response with its status and text.\<close>

datatype http_result =
  HttpError
| HttpResponse int string

text \<open>
  What the crawler takes from outside. The functions of \<open>urllib.parse\<close> are taken as total
  functions: \<open>netloc\<close>, \<open>scheme\<close> and \<open>url_path\<close> are the parts that \<open>urlparse\<close> gives,
  \<open>urljoin\<close> resolves a reference against a base. \<open>http_get\<close> is \<open>requests.get\<close>.
  \<open>makedirs_ok\<close> and \<open>browser_ok\<close> say whether \<open>os.makedirs\<close> and the start of the browser
  succeed. For the capture number \<open>k\<close> (counted from 0) of the page \<open>u\<close>:
  \<open>page_content k u\<close> is what \<open>page.content()\<close> returns after the navigation, whether or not
  the navigation failed, and \<open>None\<close> when it raises; \<open>screenshot_exists k u\<close> is the value of
  \<open>os.path.exists(screenshot_path)\<close>; \<open>clock k\<close> is the decimal text of \<open>int(time.time())\<close>;
  \<open>set_rank k\<close> ranks the elements of the set of links, whose iteration order Python leaves
  open. \<open>html_parser\<close> is \<open>BeautifulSoup(content, "html.parser")\<close>, \<open>abspath\<close> and \<open>path_join\<close>
  are the functions of \<open>os.path\<close>.
\<close>

record web =
  netloc :: "string \<Rightarrow> string"
  scheme :: "string \<Rightarrow> string"
  url_path :: "string \<Rightarrow> string"
  urljoin :: "string \<Rightarrow> string \<Rightarrow> string"
  http_get :: "string \<Rightarrow> http_result"
  makedirs_ok :: bool
  browser_ok :: bool
  page_content :: "nat \<Rightarrow> string \<Rightarrow> string option"
  screenshot_exists :: "nat \<Rightarrow> string \<Rightarrow> bool"
  clock :: "nat \<Rightarrow> string"
  set_rank :: "nat \<Rightarrow> string \<Rightarrow> nat"
  html_parser :: "string \<Rightarrow> node"
  abspath :: "string \<Rightarrow> string"
  path_join :: "string \<Rightarrow> string \<Rightarrow> string"

definition allowed_by_robots :: "web \<Rightarrow> string \<Rightarrow> bool" where
  "allowed_by_robots w u =
     (let robots_url = scheme w u @ ''://'' @ netloc w u @ ''/robots.txt''
      in case http_get w robots_url of
           HttpError \<Rightarrow> True
         | HttpResponse status_code txt \<Rightarrow>
             if status_code \<noteq> 200 then True
             else if py_in ''disallow: /'' (py_lower txt) then False
             else True)"

definition PROPRIETARY_MARKERS_crawler :: "string list" where
  "PROPRIETARY_MARKERS_crawler =
     [''instagram.com'', ''facebook.com'', ''whatsapp.com'', ''uber.com'', ''airbnb.com'',
      ''tiktok.com'', ''twitter.com'', ''x.com'', ''snapchat.com'']"

definition likely_proprietary_domain :: "web \<Rightarrow> string \<Rightarrow> bool" where
  "likely_proprietary_domain w u =
     list_ex (\<lambda>k. py_in k (py_lower (netloc w u))) PROPRIETARY_MARKERS_crawler"

text \<open>One entry of the mapping that \<open>crawl\<close> returns; \<open>None\<close> is the value \<open>None\<close> of a field.\<close>

record page_record =
  r_url :: string
  r_screenshot :: "string option"
  r_html :: "string option"
  r_text_snippet :: string
  r_links :: "string list"

text \<open>\<open>links.add(x)\<close> on a set kept as a list without duplicates.\<close>

definition set_add :: "string \<Rightarrow> string list \<Rightarrow> string list" where
  "set_add x xs = (if x \<in> set xs then xs else xs @ [x])"

text \<open>The loop over the anchors with an \<open>href\<close>: \<open>hrefs\<close> are their \<open>href\<close> values in order.\<close>

fun link_loop :: "web \<Rightarrow> string \<Rightarrow> string \<Rightarrow> string list \<Rightarrow> string list \<Rightarrow> string list" where
  "link_loop w start_url u [] links = links"
| "link_loop w start_url u (href # rest) links =
     (if startswith href ''javascript:'' \<or> startswith href ''#''
      then link_loop w start_url u rest links
      else
        (let joined = urljoin w u href
         in if netloc w joined = netloc w start_url
            then link_loop w start_url u rest (set_add (takeWhile (\<lambda>c. c \<noteq> CHR ''#'') joined) links)
            else link_loop w start_url u rest links))"

definition anchor_hrefs :: "node \<Rightarrow> string list" where
  "anchor_hrefs soup = map (\<lambda>a. or_empty (attr a ''href'')) (find_all_with ''a'' ''href'' soup)"

text \<open>The set of links of a page, in the order in which the capture \<open>k\<close> iterates over it.\<close>

definition page_links :: "web \<Rightarrow> nat \<Rightarrow> string \<Rightarrow> string \<Rightarrow> node \<Rightarrow> string list" where
  "page_links w k start_url u soup =
     sort_key (set_rank w k) (link_loop w start_url u (anchor_hrefs soup) [])"

definition safe_name :: "web \<Rightarrow> string \<Rightarrow> string" where
  "safe_name w u =
     (let name = netloc w u @ py_replace (url_path w u) ''/'' ''_''
      in if name = [] then ''root'' else name)"

definition screenshot_path :: "web \<Rightarrow> string \<Rightarrow> nat \<Rightarrow> string \<Rightarrow> string" where
  "screenshot_path w out_dir k u = path_join w out_dir (take 120 (safe_name w u) @ ''_'' @ clock w k @ ''.png'')"

definition html_path :: "web \<Rightarrow> string \<Rightarrow> nat \<Rightarrow> string \<Rightarrow> string" where
  "html_path w out_dir k u = path_join w out_dir (take 120 (safe_name w u) @ ''_'' @ clock w k @ ''.html'')"

text \<open>The content that the capture \<open>k\<close> of the page \<open>u\<close> works with.\<close>

definition captured_content :: "web \<Rightarrow> nat \<Rightarrow> string \<Rightarrow> string" where
  "captured_content w k u = (case page_content w k u of None \<Rightarrow> [] | Some c \<Rightarrow> c)"

text \<open>The entry \<open>results[url]\<close> that the capture \<open>k\<close> of the page \<open>u\<close> writes.\<close>

definition record_of :: "web \<Rightarrow> string \<Rightarrow> string \<Rightarrow> nat \<Rightarrow> string \<Rightarrow> page_record" where
  "record_of w start_url out_dir k u =
     (let soup = html_parser w (captured_content w k u)
      in \<lparr>r_url = u,
          r_screenshot = (if screenshot_exists w k u
                          then Some (abspath w (screenshot_path w out_dir k u)) else None),
          r_html = Some (abspath w (html_path w out_dir k u)),
          r_text_snippet = take 2000 (get_text_strip '' '' soup),
          r_links = page_links w k start_url u soup\<rparr>)"

text \<open>
  The state of the loop of \<open>crawl\<close>: its three variables, and the log of the calls of
  \<open>page.goto\<close>, each with the depth of its task.
\<close>

record crawl_state =
  visited :: "string fset"
  queue :: "(string \<times> int) list"
  results :: "string \<rightharpoonup> page_record"
  fetched :: "(string \<times> int) list"

definition initial_state :: "string \<Rightarrow> crawl_state" where
  "initial_state start_url =
     \<lparr>visited = {||}, queue = [(start_url, 0)], results = Map.empty, fetched = []\<rparr>"

text \<open>The last loop of an iteration: \<open>for l in links\<close>.\<close>

fun enqueue_loop :: "int \<Rightarrow> string fset \<Rightarrow> int \<Rightarrow> string list \<Rightarrow> (string \<times> int) list \<Rightarrow> (string \<times> int) list" where
  "enqueue_loop max_pages vis depth [] q = q"
| "enqueue_loop max_pages vis depth (l # ls) q =
     enqueue_loop max_pages vis depth ls
       (if l |\<notin>| vis \<and> int (fcard vis) + int (length q) < max_pages
        then q @ [(l, depth + 1)] else q)"

text \<open>The loop condition and one iteration of \<open>while queue and len(visited) < max_pages\<close>.\<close>

definition loop_cond :: "int \<Rightarrow> crawl_state \<Rightarrow> bool" where
  "loop_cond max_pages s = (queue s \<noteq> [] \<and> int (fcard (visited s)) < max_pages)"

definition crawl_iteration :: "web \<Rightarrow> string \<Rightarrow> int \<Rightarrow> int \<Rightarrow> string \<Rightarrow> crawl_state \<Rightarrow> crawl_state" where
  "crawl_iteration w start_url max_pages max_depth out_dir s =
     (case queue s of
        [] \<Rightarrow> s
      | (u, depth) # rest \<Rightarrow>
          if u |\<in>| visited s \<or> depth > max_depth then s\<lparr>queue := rest\<rparr>
          else
            (let k = fcard (visited s);
                 rec = record_of w start_url out_dir k u;
                 vis = finsert u (visited s)
             in \<lparr>visited = vis,
                 queue = enqueue_loop max_pages vis depth (r_links rec) rest,
                 results = (results s)(u \<mapsto> rec),
                 fetched = fetched s @ [(u, depth)]\<rparr>))"

function crawl_loop :: "web \<Rightarrow> string \<Rightarrow> int \<Rightarrow> int \<Rightarrow> string \<Rightarrow> crawl_state \<Rightarrow> crawl_state" where
  "crawl_loop w start_url max_pages max_depth out_dir s =
     (if loop_cond max_pages s
      then crawl_loop w start_url max_pages max_depth out_dir
             (crawl_iteration w start_url max_pages max_depth out_dir s)
      else s)"
  by pat_completeness auto
termination
proof (relation "measures [\<lambda>(w, start_url, max_pages, max_depth, out_dir, s). nat (max_pages - int (fcard (visited s))),
                          \<lambda>(w, start_url, max_pages, max_depth, out_dir, s). length (queue s)]")
  show "wf (measures [\<lambda>(w, start_url, max_pages, max_depth, out_dir, s). nat (max_pages - int (fcard (visited s))),
                      \<lambda>(w, start_url, max_pages, max_depth, out_dir, s :: crawl_state). length (queue s)])"
    by simp
next
  fix w :: web and start_url :: string and max_pages max_depth :: int and out_dir :: string
    and s :: crawl_state
  assume cond: "loop_cond max_pages s"
  then obtain u depth rest where q: "queue s = (u, depth) # rest"
    by (cases "queue s") (auto simp: loop_cond_def)
  from cond have lt: "int (fcard (visited s)) < max_pages"
    by (simp add: loop_cond_def)
  show "((w, start_url, max_pages, max_depth, out_dir,
          crawl_iteration w start_url max_pages max_depth out_dir s),
         (w, start_url, max_pages, max_depth, out_dir, s))
        \<in> measures [\<lambda>(w, start_url, max_pages, max_depth, out_dir, s). nat (max_pages - int (fcard (visited s))),
                     \<lambda>(w, start_url, max_pages, max_depth, out_dir, s). length (queue s)]"
  proof (cases "u |\<in>| visited s \<or> depth > max_depth")
    case True
    then show ?thesis
      using q by (auto simp: crawl_iteration_def)
  next
    case False
    then have "fcard (finsert u (visited s)) = Suc (fcard (visited s))"
      by (simp add: fcard_finsert_disjoint)
    with False lt show ?thesis
      using q by (auto simp: crawl_iteration_def Let_def)
  qed
qed

declare crawl_loop.simps [simp del]

datatype crawl_error = MakedirsFailed | PolicyAbort | BrowserFailed

text \<open>
  \<open>crawl\<close>: the log of the page fetches, and the mapping returned or the error raised.
  The call of \<open>allowed_by_robots\<close> is commented out in the source, so it is not part of it.
\<close>

definition crawl ::
  "web \<Rightarrow> string \<Rightarrow> int \<Rightarrow> int \<Rightarrow> string \<Rightarrow> (string \<times> int) list \<times> (crawl_error + (string \<rightharpoonup> page_record))" where
  "crawl w start_url max_pages max_depth out_dir =
     (if \<not> makedirs_ok w then ([], Inl MakedirsFailed)
      else if likely_proprietary_domain w start_url then ([], Inl PolicyAbort)
      else if \<not> browser_ok w then ([], Inl BrowserFailed)
      else
        (let s = crawl_loop w start_url max_pages max_depth out_dir (initial_state start_url)
         in (fetched s, Inr (results s))))"

text \<open>The target of a link: the reference resolved against the page, cut before its first \<open>#\<close>.\<close>

definition link_target :: "web \<Rightarrow> string \<Rightarrow> string \<Rightarrow> string" where
  "link_target w u href = takeWhile (\<lambda>c. c \<noteq> CHR ''#'') (urljoin w u href)"

text \<open>
  The links of a page in the words of the specification: of the \<open>href\<close> values of its
  anchors, those that do not start with \<open>javascript:\<close> or \<open>#\<close> and that, resolved against
  the page, have the host of the start URL. The function \<open>host\<close> stands for the
  \<open>hostname\<close> that \<open>urlparse\<close> gives (the host in lower case, without port and user
  information), which the code does not use.
\<close>

definition host_kept :: "(string \<Rightarrow> string) \<Rightarrow> web \<Rightarrow> string \<Rightarrow> string \<Rightarrow> string \<Rightarrow> bool" where
  "host_kept host w start_url u href =
     (\<not> startswith href ''javascript:'' \<and> \<not> startswith href ''#''
      \<and> host (urljoin w u href) = host start_url)"

definition host_links :: "(string \<Rightarrow> string) \<Rightarrow> web \<Rightarrow> string \<Rightarrow> string \<Rightarrow> string list \<Rightarrow> string set" where
  "host_links host w start_url u hrefs =
     set (map (link_target w u) (filter (host_kept host w start_url u) hrefs))"

text \<open>
  The links of a page with the comparison that the code makes: the \<open>netloc\<close> of the
  resolved link, which is the authority as it is written (the host in the case of the
  text, with the port and the user information if there are any), equals the \<open>netloc\<close>
  of the start URL.
\<close>

definition netloc_kept :: "web \<Rightarrow> string \<Rightarrow> string \<Rightarrow> string \<Rightarrow> bool" where
  "netloc_kept w start_url u href =
     (\<not> startswith href ''javascript:'' \<and> \<not> startswith href ''#''
      \<and> netloc w (urljoin w u href) = netloc w start_url)"

definition netloc_links :: "web \<Rightarrow> string \<Rightarrow> string \<Rightarrow> string list \<Rightarrow> string set" where
  "netloc_links w start_url u hrefs = link_target w u ` {href \<in> set hrefs. netloc_kept w start_url u href}"

text \<open>The states that a run of the loop goes through.\<close>

inductive crawl_reach :: "web \<Rightarrow> string \<Rightarrow> int \<Rightarrow> int \<Rightarrow> string \<Rightarrow> crawl_state \<Rightarrow> bool"
  for w :: web and start_url :: string and max_pages :: int and max_depth :: int and out_dir :: string where
  reach_init: "crawl_reach w start_url max_pages max_depth out_dir (initial_state start_url)"
| reach_step:
    "crawl_reach w start_url max_pages max_depth out_dir s \<Longrightarrow> loop_cond max_pages s \<Longrightarrow>
     crawl_reach w start_url max_pages max_depth out_dir
       (crawl_iteration w start_url max_pages max_depth out_dir s)"


section \<open>Example inputs\<close>

text \<open>
  A gateway whose model answers with a fenced JSON object that holds one file, and a UX
  spec of a site with one page.
\<close>

definition example_gateway :: gateway where
  "example_gateway =
     \<lparr>ollama_available = True,
      ollama_chat = (\<lambda>model prompt.
        Some (''Sure! ```json'' @ [CHR 0x0A] @ ''{\"files\":{\"a.txt\":\"x\"}}'' @ [CHR 0x0A] @ ''```'')),
      loads = json_parse,
      dumps = (\<lambda>v. ''{}''),
      dumps_spec = (\<lambda>s. ''{}''),
      py_str = (\<lambda>v. ''None''),
      utcnow = ''20250101000000''\<rparr>"

definition example_spec :: ux_spec where
  "example_spec =
     \<lparr>domain = Some ''example.org'',
      pages = [\<lparr>url = Some ''http://example.org/'', title = Some ''Example Domain'',
                components = [], features = []\<rparr>]\<rparr>"

text \<open>
  A site with three pages: the start page links to \<open>/b\<close> and \<open>/c\<close> (and has a fragment
  link, a script link and a link to another host), the page \<open>/b\<close> links to \<open>/c#frag\<close>, and
  the content of the page \<open>/c\<close> cannot be read. Its \<open>robots.txt\<close> disallows everything.
\<close>

definition example_start :: string where
  "example_start = ''http://example.org/''"

definition example_page_a :: node where
  "example_page_a =
     Element ''[document]'' []
       [Element ''a'' [(''href'', ''/b'')] [Text '' Page B ''],
        Element ''a'' [(''href'', ''/c'')] [Text ''Page C''],
        Element ''a'' [(''href'', ''#top'')] [Text ''Top''],
        Element ''a'' [(''href'', ''javascript:void(0)'')] [Text ''Menu''],
        Element ''a'' [(''href'', ''http://other.net/x'')] [Text ''Elsewhere'']]"

definition example_page_b :: node where
  "example_page_b =
     Element ''[document]'' [] [Element ''a'' [(''href'', ''/c#frag'')] [Text ''Page C'']]"

definition example_web :: web where
  "example_web =
     \<lparr>netloc = (\<lambda>u. if startswith u ''http://example.org'' then ''example.org'' else ''other.net''),
      scheme = (\<lambda>u. ''http''),
      url_path = (\<lambda>u. drop 18 u),
      urljoin = (\<lambda>base ref. if startswith ref ''http'' then ref else ''http://example.org'' @ ref),
      http_get = (\<lambda>u. HttpResponse 200 (''User-agent: *'' @ [CHR 0x0A] @ ''Disallow: /'')),
      makedirs_ok = True,
      browser_ok = True,
      page_content = (\<lambda>k u. if u = ''http://example.org/'' then Some ''A''
                             else if u = ''http://example.org/b'' then Some ''B'' else None),
      screenshot_exists = (\<lambda>k u. u = ''http://example.org/''),
      clock = (\<lambda>k. ''1700000000''),
      set_rank = (\<lambda>k l. 0),
      html_parser = (\<lambda>c. if c = ''A'' then example_page_a
                          else if c = ''B'' then example_page_b
                          else Element ''[document]'' [] []),
      abspath = (\<lambda>p. ''/work/'' @ p),
      path_join = (\<lambda>d f. d @ ''/'' @ f)\<rparr>"

text \<open>
  Two buttons whose text is white space only: an icon button with an \<open>aria-label\<close>,
  whose children are an \<open>svg\<close> element and the line breaks around it, and a button with a
  \<open>value\<close> whose text is one blank. The third button is the icon button without children.
\<close>

definition example_icon_button :: node where
  "example_icon_button =
     Element ''button'' [(''aria-label'', ''Close'')]
       [Text [CHR 0x0A, CHR '' '', CHR '' ''], Element ''svg'' [] [], Text [CHR 0x0A]]"

definition example_button :: node where
  "example_button = Element ''button'' [(''value'', ''Go'')] [Text '' '']"

definition example_empty_button :: node where
  "example_empty_button = Element ''button'' [(''aria-label'', ''Close'')] []"

definition example_document :: "node \<Rightarrow> node" where
  "example_document b = Element ''[document]'' [] [b]"

text \<open>
  The \<open>netloc\<close> and the \<open>hostname\<close> that \<open>urlparse\<close> gives for a URL of the form
  \<open>scheme://authority\<close> followed by a path: the authority is the text up to the next
  \<open>/\<close>, \<open>?\<close> or \<open>#\<close>; the host name is the authority without the user information
  before \<open>@\<close> and the port after \<open>:\<close>, in lower case.
\<close>

definition url_netloc :: "string \<Rightarrow> string" where
  "url_netloc u = takeWhile (\<lambda>c. c \<notin> set ''/?#'') (drop 2 (dropWhile (\<lambda>c. c \<noteq> CHR ''/'') u))"

definition url_hostname :: "string \<Rightarrow> string" where
  "url_hostname u =
     py_lower (takeWhile (\<lambda>c. c \<noteq> CHR '':'')
       (rev (takeWhile (\<lambda>c. c \<noteq> CHR ''@'') (rev (url_netloc u)))))"

text \<open>
  A second site: the start page links to its own host written in upper case, to its own
  host with the port 80, and to \<open>/d\<close>.
\<close>

definition example_page_hosts :: node where
  "example_page_hosts =
     Element ''[document]'' []
       [Element ''a'' [(''href'', ''http://EXAMPLE.org/b'')] [Text ''Page B''],
        Element ''a'' [(''href'', ''http://example.org:80/c'')] [Text ''Page C''],
        Element ''a'' [(''href'', ''/d'')] [Text ''Page D'']]"

definition example_web_hosts :: web where
  "example_web_hosts =
     example_web
       \<lparr>netloc := url_netloc,
        html_parser := (\<lambda>c. if c = ''A'' then example_page_hosts else Element ''[document]'' [] [])\<rparr>"

text \<open>The states of the example crawl after one and after two iterations.\<close>

definition example_state1 :: "int \<Rightarrow> crawl_state" where
  "example_state1 max_depth =
     crawl_iteration example_web example_start 10 max_depth ''out'' (initial_state example_start)"

definition example_state2 :: crawl_state where
  "example_state2 = crawl_iteration example_web example_start 10 2 ''out'' (example_state1 2)"

text \<open>A UX spec whose domain passed but one of whose page titles names a proprietary site.\<close>

definition proprietary_spec :: ux_spec where
  "proprietary_spec =
     \<lparr>domain = Some ''example.org'',
      pages = [\<lparr>url = Some ''http://example.org/'', title = Some ''Log in to Facebook'',
                components = [], features = []\<rparr>]\<rparr>"


section \<open>Properties of the sanitizer\<close>

lemma py_find_char_None: "py_find s [c] = None \<longleftrightarrow> c \<notin> set s"
  by (induction s) (auto simp: startswith_def)

lemma py_find_char_Some:
  "py_find s [c] = Some k \<Longrightarrow> drop k s = dropWhile (\<lambda>x. x \<noteq> c) s"
  by (induction s arbitrary: k) (auto simp: startswith_def split: if_splits)

lemma set_replace_nonempty:
  "old \<noteq> [] \<Longrightarrow> c \<notin> set old \<Longrightarrow> c \<notin> set new \<Longrightarrow>
   c \<in> set (replace_nonempty old new s) \<longleftrightarrow> c \<in> set s"
proof (induction old new s rule: replace_nonempty.induct)
  case (1 old new)
  then show ?case by simp
next
  case (2 old new x xs)
  show ?case
  proof (cases "startswith (x # xs) old")
    case True
    then have eq: "take (length old) (x # xs) = old"
      by (simp add: startswith_def)
    have ne: "old \<noteq> []"
      using "2.prems" by simp
    have split: "x # xs = old @ drop (length old - 1) xs"
    proof -
      have "x # xs = take (length old) (x # xs) @ drop (length old) (x # xs)"
        by simp
      moreover have "drop (length old) (x # xs) = drop (length old - 1) xs"
        using ne by (cases old) auto
      ultimately show ?thesis using eq by simp
    qed
    have "c \<in> set (x # xs) \<longleftrightarrow> c \<in> set (drop (length old - 1) xs)"
      using "2.prems"(2) by (subst split) simp
    with True 2 show ?thesis by simp
  next
    case False
    with 2 show ?thesis by auto
  qed
qed

lemma brace_set_text_to_parse:
  "CHR ''{'' \<in> set (text_to_parse text) \<longleftrightarrow> CHR ''{'' \<in> set (unfenced_text text)"
  by (simp add: text_to_parse_def py_replace_def set_replace_nonempty)

lemma brace_depth_Nil: "brace_depth [] = 0"
  by (simp add: brace_depth_def)

lemma brace_depth_Cons:
  "brace_depth (c # s) =
     (if c = CHR ''{'' then 1 else if c = CHR ''}'' then - 1 else 0) + brace_depth s"
  by (simp add: brace_depth_def)

lemma brace_scan_None:
  "\<forall>n\<in>{1..length s}. depth + brace_depth (take n s) \<noteq> 0 \<Longrightarrow> brace_scan s depth i = None"
proof (induction s arbitrary: depth i)
  case Nil
  then show ?case by simp
next
  case (Cons ch rest)
  let ?d = "depth + brace_depth [ch]"
  have step: "\<forall>n\<in>{1..length rest}. ?d + brace_depth (take n rest) \<noteq> 0"
  proof
    fix n assume "n \<in> {1..length rest}"
    then have "Suc n \<in> {1..length (ch # rest)}" by simp
    with Cons.prems have "depth + brace_depth (take (Suc n) (ch # rest)) \<noteq> 0" by blast
    then show "?d + brace_depth (take n rest) \<noteq> 0"
      by (simp add: brace_depth_Cons brace_depth_Nil split: if_splits)
  qed
  have one: "?d \<noteq> 0"
    using Cons.prems by (auto dest!: bspec [where x = 1])
  have IH: "brace_scan rest ?d (i + 1) = None"
    by (rule Cons.IH [OF step])
  consider (open_brace) "ch = CHR ''{''" | (close_brace) "ch = CHR ''}''"
    | (other) "ch \<noteq> CHR ''{''" "ch \<noteq> CHR ''}''"
    by blast
  then show ?case
  proof cases
    case open_brace
    then have "?d = depth + 1"
      by (simp add: brace_depth_Cons brace_depth_Nil)
    with IH open_brace show ?thesis by simp
  next
    case close_brace
    then have "?d = depth - 1"
      by (simp add: brace_depth_Cons brace_depth_Nil)
    with IH one close_brace show ?thesis by simp
  next
    case other
    then have "?d = depth"
      by (simp add: brace_depth_Cons brace_depth_Nil)
    with IH other show ?thesis by simp
  qed
qed

lemma set_py_strip: "set (py_strip s) \<subseteq> set s"
proof -
  have "set (py_strip s) \<subseteq> set (rev (dropWhile is_space s))"
    unfolding py_strip_def set_rev by (auto dest: set_dropWhileD)
  also have "\<dots> \<subseteq> set s"
    unfolding set_rev by (auto dest: set_dropWhileD)
  finally show ?thesis .
qed

lemma match_json_fence_set: "match_json_fence s = Some g \<Longrightarrow> set g \<subseteq> set s"
proof -
  assume "match_json_fence s = Some g"
  then obtain k where g: "g = take k (dropWhile is_space (drop 7 s))"
    by (auto simp: match_json_fence_def Let_def split: if_splits)
  have "set g \<subseteq> set (dropWhile is_space (drop 7 s))"
    unfolding g by (rule set_take_subset)
  also have "\<dots> \<subseteq> set (drop 7 s)"
    by (auto dest: set_dropWhileD)
  also have "\<dots> \<subseteq> set s"
    by (rule set_drop_subset)
  finally show ?thesis .
qed

lemma match_plain_fence_set: "match_plain_fence s = Some g \<Longrightarrow> set g \<subseteq> set s"
proof -
  assume "match_plain_fence s = Some g"
  then obtain k where g: "g = take k (drop 3 s)"
    by (auto simp: match_plain_fence_def Let_def split: if_splits)
  have "set g \<subseteq> set (drop 3 s)"
    unfolding g by (rule set_take_subset)
  also have "\<dots> \<subseteq> set s"
    by (rule set_drop_subset)
  finally show ?thesis .
qed

lemma fence_search_set:
  "fence_search s = Some (g1, g2) \<Longrightarrow> set (or_empty (py_or g1 (py_or g2 (Some [])))) \<subseteq> set s"
proof (induction s)
  case Nil
  then show ?case by simp
next
  case (Cons c cs)
  show ?case
  proof (cases "match_json_fence (c # cs)")
    case (Some g)
    with Cons.prems have "g1 = Some g" "g2 = None" by auto
    with match_json_fence_set [OF Some] show ?thesis by (cases "g = []") auto
  next
    case None
    note nj = None
    show ?thesis
    proof (cases "match_plain_fence (c # cs)")
      case (Some g)
      with nj Cons.prems have "g1 = None" "g2 = Some g" by auto
      with match_plain_fence_set [OF Some] show ?thesis by (cases "g = []") auto
    next
      case None
      with nj Cons.prems have "fence_search cs = Some (g1, g2)" by simp
      from Cons.IH [OF this] show ?thesis by auto
    qed
  qed
qed

lemma set_fenced_text: "set (fenced_text text) \<subseteq> set text"
proof (cases "fence_search text")
  case None
  then show ?thesis by (simp add: fenced_text_def set_py_strip)
next
  case (Some p)
  obtain g1 g2 where p: "p = (g1, g2)" by (cases p)
  have "set (fenced_text text) \<subseteq> set (or_empty (py_or g1 (py_or g2 (Some []))))"
    using Some p by (simp add: fenced_text_def set_py_strip)
  also have "\<dots> \<subseteq> set text"
    using Some p by (auto dest: fence_search_set)
  finally show ?thesis .
qed

lemma set_replace_nonempty_del: "set (replace_nonempty old [] s) \<subseteq> set s"
proof (induction old "[] :: string" s rule: replace_nonempty.induct)
  case (1 old)
  then show ?case by simp
next
  case (2 old c cs)
  show ?case
  proof (cases "startswith (c # cs) old")
    case True
    have "set (drop (length old - 1) cs) \<subseteq> set cs"
      by (rule set_drop_subset)
    with True 2 show ?thesis by auto
  next
    case False
    with 2 show ?thesis by auto
  qed
qed

lemma set_unfenced_text: "set (unfenced_text text) \<subseteq> set text"
proof -
  have "set (py_strip (py_replace text ''```'' [])) \<subseteq> set text"
    using set_py_strip [of "py_replace text ''```'' []"] set_replace_nonempty_del [of "''```''" "text"]
    by (auto simp: py_replace_def)
  then show ?thesis
    using set_fenced_text [of "text"] by (auto simp: unfenced_text_def Let_def)
qed

text \<open>
  Claim C6. For every input text, \<open>sanitize_llm_output\<close> fails with \<open>NoJsonFound\<close>
  exactly when the text that remains after the fence handling (the inner text of the first
  fence or the whole text, and the fall-back of step 2) contains no opening brace; in
  particular it does so when the input has no opening brace anywhere. When an opening brace
  exists and the brace depth, counted from the first opening brace, is never zero after any
  character, it fails with \<open>UnbalancedOutput\<close>, as it does on the text \<open>{ "a": 1 \<close>.
\<close>

theorem sanitize_failures:
  "(sanitize_llm_output text = Inl NoJsonFound \<longleftrightarrow> CHR ''{'' \<notin> set (unfenced_text text))
   \<and> (CHR ''{'' \<notin> set text \<longrightarrow> sanitize_llm_output text = Inl NoJsonFound)
   \<and> (CHR ''{'' \<in> set (unfenced_text text)
        \<and> (\<forall>n\<in>{1..length (from_first_brace (text_to_parse text))}.
              brace_depth (take n (from_first_brace (text_to_parse text))) \<noteq> 0)
       \<longrightarrow> sanitize_llm_output text = Inl UnbalancedOutput)
   \<and> sanitize_llm_output ''{ \"a\": 1 '' = Inl UnbalancedOutput"
proof -
  have no_json: "sanitize_llm_output text = Inl NoJsonFound \<longleftrightarrow> CHR ''{'' \<notin> set (unfenced_text text)"
  proof (cases "py_find (text_to_parse text) ''{''")
    case None
    then have "CHR ''{'' \<notin> set (text_to_parse text)"
      using py_find_char_None [of "text_to_parse text" "CHR ''{''"] by simp
    then show ?thesis
      using None brace_set_text_to_parse [of "text"]
      by (simp add: sanitize_llm_output_def)
  next
    case (Some start)
    then have "CHR ''{'' \<in> set (text_to_parse text)"
      using py_find_char_None [of "text_to_parse text" "CHR ''{''"] by auto
    then show ?thesis
      using Some brace_set_text_to_parse [of "text"]
      by (simp add: sanitize_llm_output_def Let_def split: option.splits)
  qed
  have nowhere: "CHR ''{'' \<notin> set text \<longrightarrow> sanitize_llm_output text = Inl NoJsonFound"
    using no_json set_unfenced_text [of "text"] by auto
  have unbalanced: "sanitize_llm_output text = Inl UnbalancedOutput"
    if has: "CHR ''{'' \<in> set (unfenced_text text)"
      and never: "\<forall>n\<in>{1..length (from_first_brace (text_to_parse text))}.
              brace_depth (take n (from_first_brace (text_to_parse text))) \<noteq> 0"
  proof -
    from has have "CHR ''{'' \<in> set (text_to_parse text)"
      by (simp add: brace_set_text_to_parse)
    then obtain start where start: "py_find (text_to_parse text) ''{'' = Some start"
      using py_find_char_None [of "text_to_parse text" "CHR ''{''"] by auto
    have t: "drop start (text_to_parse text) = from_first_brace (text_to_parse text)"
      using py_find_char_Some [OF start] by (simp add: from_first_brace_def)
    have "brace_scan (from_first_brace (text_to_parse text)) 0 0 = None"
      by (rule brace_scan_None) (use never in simp)
    with start t show ?thesis
      by (simp add: sanitize_llm_output_def)
  qed
  have example: "sanitize_llm_output ''{ \"a\": 1 '' = Inl UnbalancedOutput"
    by code_simp
  from no_json nowhere unbalanced example show ?thesis by blast
qed

text \<open>The hypotheses of C6 hold at a text without braces and at the text \<open>{{}\<close>.\<close>

theorem sanitize_failures_witness:
  "CHR ''{'' \<notin> set ''no json here''
   \<and> sanitize_llm_output ''no json here'' = Inl NoJsonFound
   \<and> CHR ''{'' \<in> set (unfenced_text ''{{}'')
   \<and> from_first_brace (text_to_parse ''{{}'') = ''{{}''
   \<and> brace_depth ''{'' = 1 \<and> brace_depth ''{{'' = 2 \<and> brace_depth ''{{}'' = 1
   \<and> sanitize_llm_output ''{{}'' = Inl UnbalancedOutput"
proof -
  have a: "CHR ''{'' \<notin> set ''no json here''" by simp
  have b: "CHR ''{'' \<in> set (unfenced_text ''{{}'')" by code_simp
  have t: "from_first_brace (text_to_parse ''{{}'') = ''{{}''" by code_simp
  have d: "brace_depth ''{'' = 1" "brace_depth ''{{'' = 2" "brace_depth ''{{}'' = 1"
    by (simp_all add: brace_depth_def)
  have c: "\<forall>n\<in>{1..length (from_first_brace (text_to_parse ''{{}''))}.
         brace_depth (take n (from_first_brace (text_to_parse ''{{}''))) \<noteq> 0"
    unfolding t by (simp add: brace_depth_def atLeastAtMost_upt upt_rec take_Suc_conv_app_nth numeral_nat)
  from a b c d t sanitize_failures [of "''no json here''"] sanitize_failures [of "''{{}''"]
  show ?thesis by blast
qed

section \<open>The round trip of the sanitizer\<close>

text \<open>
  Claim C7. On the text \<open>Sure! \<close> followed by a fenced block tagged \<open>json\<close> whose inner text
  is \<open>{"files":{"a.txt":"x"}}\<close>, \<open>sanitize_llm_output\<close> succeeds, and parsing its result
  gives the object with the one key \<open>files\<close>, whose value is the object that maps \<open>a.txt\<close>
  to \<open>x\<close>.
\<close>

theorem sanitize_round_trip:
  "sanitize_llm_output
     (''Sure! ```json'' @ [CHR 0x0A] @ ''{\"files\":{\"a.txt\":\"x\"}}'' @ [CHR 0x0A] @ ''```'')
     = Inr ''{\"files\":{\"a.txt\":\"x\"}}''
   \<and> json_parse ''{\"files\":{\"a.txt\":\"x\"}}''
     = Some (JObject [(''files'', JObject [(''a.txt'', JString ''x'')])])"
proof -
  have sanitized: "sanitize_llm_output
     (''Sure! ```json'' @ [CHR 0x0A] @ ''{\"files\":{\"a.txt\":\"x\"}}'' @ [CHR 0x0A] @ ''```'')
     = Inr ''{\"files\":{\"a.txt\":\"x\"}}''"
    by code_simp
  have parsed: "json_parse ''{\"files\":{\"a.txt\":\"x\"}}''
     = Some (JObject [(''files'', JObject [(''a.txt'', JString ''x'')])])"
    by code_simp
  from sanitized parsed show ?thesis by (rule conjI)
qed


section \<open>Properties of the assembler\<close>

lemma overlay_loop_lookup:
  "overlay_loop g files m k = (case model_version g files k of None \<Rightarrow> m k | Some s \<Rightarrow> Some s)"
proof (induction files arbitrary: m)
  case Nil
  then show ?case by (simp add: model_version_def)
next
  case (Cons kv rest)
  obtain k' v where kv: "kv = (k', v)" by (cases kv)
  show ?case
    unfolding kv by (simp add: Cons.IH model_version_def map_add_def split: option.splits)
qed

lemma frontend_loop_keeps: "m k \<noteq> None \<Longrightarrow> frontend_loop fns m k = m k"
  by (induction fns arbitrary: m) auto

lemma frontend_loop_dom: "set fns \<subseteq> dom (frontend_loop fns m)"
proof (induction fns arbitrary: m)
  case Nil
  then show ?case by simp
next
  case (Cons fn rest)
  let ?m' = "if m fn = None then m(fn \<mapsto> (case DEFAULT_FILES fn of None \<Rightarrow> [] | Some d \<Rightarrow> d)) else m"
  have "?m' fn \<noteq> None" by auto
  then have "frontend_loop rest ?m' fn \<noteq> None"
    by (simp add: frontend_loop_keeps)
  moreover have "set rest \<subseteq> dom (frontend_loop rest ?m')"
    by (rule Cons.IH)
  ultimately show ?case by auto
qed

lemma frontend_loop_id: "set fns \<subseteq> dom m \<Longrightarrow> frontend_loop fns m = m"
  by (induction fns arbitrary: m) auto

lemma default_server_ok:
  "50 \<le> length (py_strip default_server_py)" "CHR 0x0A \<in> set default_server_py"
  by code_simp+

lemma default_requirements_ok: "py_strip default_requirements_txt \<noteq> []"
  by code_simp

lemma DEFAULT_FILES_server: "DEFAULT_FILES ''server.py'' = Some default_server_py"
  by (simp add: DEFAULT_FILES_def default_files_list_def)

lemma DEFAULT_FILES_requirements: "DEFAULT_FILES ''requirements.txt'' = Some default_requirements_txt"
  by (simp add: DEFAULT_FILES_def default_files_list_def)

lemma needed_frontend_defaults: "set needed_frontend \<subseteq> dom DEFAULT_FILES"
  by (simp add: needed_frontend_def DEFAULT_FILES_def default_files_list_def)

lemma assemble_files_server:
  "assemble_files g files ''server.py'' =
     Some (case model_version g files ''server.py'' of
             None \<Rightarrow> default_server_py
           | Some sp \<Rightarrow> if 50 \<le> length (py_strip sp) \<and> CHR 0x0A \<in> set sp then sp
                        else default_server_py)"
proof -
  define final1 where "final1 = overlay_loop g files DEFAULT_FILES"
  define sp where "sp = (case final1 ''server.py'' of None \<Rightarrow> [] | Some s \<Rightarrow> s)"
  define final2 where "final2 = (if length (py_strip sp) < 50 \<or> CHR 0x0A \<notin> set sp
                    then final1(''server.py'' \<mapsto> default_server_py) else final1)"
  define final3 where "final3 =
     (if (case final2 ''requirements.txt'' of None \<Rightarrow> True | Some r \<Rightarrow> py_strip r = [])
      then final2(''requirements.txt'' \<mapsto> default_requirements_txt) else final2)"
  have result: "assemble_files g files = frontend_loop needed_frontend final3"
    by (simp add: assemble_files_def Let_def final1_def sp_def final2_def final3_def)
  have f1: "final1 ''server.py'' =
      Some (case model_version g files ''server.py'' of None \<Rightarrow> default_server_py | Some s \<Rightarrow> s)"
    by (simp add: final1_def overlay_loop_lookup DEFAULT_FILES_server split: option.splits)
  have f2: "final2 ''server.py'' =
     Some (case model_version g files ''server.py'' of
             None \<Rightarrow> default_server_py
           | Some sp \<Rightarrow> if 50 \<le> length (py_strip sp) \<and> CHR 0x0A \<in> set sp then sp
                        else default_server_py)"
    using default_server_ok
    by (auto simp: final2_def sp_def f1 split: option.splits)
  have f3: "final3 ''server.py'' = final2 ''server.py''"
    by (simp add: final3_def)
  have "frontend_loop needed_frontend final3 ''server.py'' = final3 ''server.py''"
    by (rule frontend_loop_keeps) (simp add: f3 f2)
  with result f3 f2 show ?thesis by simp
qed

lemma assemble_files_requirements:
  "case assemble_files g files ''requirements.txt'' of None \<Rightarrow> False | Some r \<Rightarrow> py_strip r \<noteq> []"
proof -
  define final1 where "final1 = overlay_loop g files DEFAULT_FILES"
  define sp where "sp = (case final1 ''server.py'' of None \<Rightarrow> [] | Some s \<Rightarrow> s)"
  define final2 where "final2 = (if length (py_strip sp) < 50 \<or> CHR 0x0A \<notin> set sp
                    then final1(''server.py'' \<mapsto> default_server_py) else final1)"
  define final3 where "final3 =
     (if (case final2 ''requirements.txt'' of None \<Rightarrow> True | Some r \<Rightarrow> py_strip r = [])
      then final2(''requirements.txt'' \<mapsto> default_requirements_txt) else final2)"
  have result: "assemble_files g files = frontend_loop needed_frontend final3"
    by (simp add: assemble_files_def Let_def final1_def sp_def final2_def final3_def)
  have f3: "case final3 ''requirements.txt'' of None \<Rightarrow> False | Some r \<Rightarrow> py_strip r \<noteq> []"
    using default_requirements_ok by (auto simp: final3_def split: option.splits)
  then have "final3 ''requirements.txt'' \<noteq> None"
    by (auto split: option.splits)
  then have "frontend_loop needed_frontend final3 ''requirements.txt'' = final3 ''requirements.txt''"
    by (rule frontend_loop_keeps)
  with result f3 show ?thesis by simp
qed

lemma assemble_files_frontend: "set needed_frontend \<subseteq> dom (assemble_files g files)"
  by (simp add: assemble_files_def Let_def frontend_loop_dom)

lemma assemble_files_empty: "assemble_files g [] = DEFAULT_FILES"
proof -
  have "frontend_loop needed_frontend DEFAULT_FILES = DEFAULT_FILES"
    by (rule frontend_loop_id) (rule needed_frontend_defaults)
  then show ?thesis
    using default_server_ok default_requirements_ok
    by (simp add: assemble_files_def Let_def DEFAULT_FILES_server DEFAULT_FILES_requirements)
qed

lemma generate_scaffold_assembles:
  "\<not> likely_proprietary_spec spec \<Longrightarrow>
   \<exists>calls files out. generate_scaffold g spec app_name model out_zip
      = (calls @ [ZipWritten out (assemble_files g files)], Inr out)"
  by (auto simp: generate_scaffold_def Let_def split: prod.splits)

text \<open>
  Claim C1. For every list of model files, the empty one included, the file map that
  \<open>generate_scaffold\<close> assembles and writes has every entry of the required frontend list
  (\<open>frontend/package.json\<close>, \<open>frontend/vite.config.js\<close>, \<open>frontend/index.html\<close>,
  \<open>frontend/src/main.jsx\<close>, \<open>frontend/src/App.jsx\<close>,
  \<open>frontend/src/components/AutoLayout.jsx\<close>), a \<open>requirements.txt\<close> that is not empty (not
  even after stripping), and a \<open>server.py\<close> that is the model's version when that has at
  least 50 characters after stripping and a line break, and the default \<open>server.py\<close>
  otherwise. Without model files the result is the default file set.
\<close>

theorem assembler_totality:
  "needed_frontend =
     [''frontend/package.json'', ''frontend/vite.config.js'', ''frontend/index.html'',
      ''frontend/src/main.jsx'', ''frontend/src/App.jsx'',
      ''frontend/src/components/AutoLayout.jsx'']
   \<and> set needed_frontend \<subseteq> dom (assemble_files g files)
   \<and> (case assemble_files g files ''requirements.txt'' of
          None \<Rightarrow> False
        | Some r \<Rightarrow> r \<noteq> [] \<and> py_strip r \<noteq> [])
   \<and> assemble_files g files ''server.py'' =
       Some (case model_version g files ''server.py'' of
               None \<Rightarrow> default_server_py
             | Some sp \<Rightarrow> if 50 \<le> length (py_strip sp) \<and> CHR 0x0A \<in> set sp then sp
                          else default_server_py)
   \<and> assemble_files g [] = DEFAULT_FILES
   \<and> (\<not> likely_proprietary_spec spec \<longrightarrow>
        (\<exists>calls fs out. generate_scaffold g spec app_name model out_zip
           = (calls @ [ZipWritten out (assemble_files g fs)], Inr out)))"
proof -
  have req: "case assemble_files g files ''requirements.txt'' of
          None \<Rightarrow> False
        | Some r \<Rightarrow> r \<noteq> [] \<and> py_strip r \<noteq> []"
    using assemble_files_requirements [of g files]
    by (auto simp: py_strip_def split: option.splits)
  show ?thesis
    using req assemble_files_frontend [of g files] assemble_files_server [of g files]
      assemble_files_empty [of g] generate_scaffold_assembles [of spec g app_name model out_zip]
    by (simp add: needed_frontend_def)
qed

text \<open>The hypothesis of C1 holds for the example spec, with the example gateway.\<close>

theorem assembler_totality_witness:
  "\<not> likely_proprietary_spec example_spec
   \<and> (\<exists>calls fs out. generate_scaffold example_gateway example_spec ''My App'' ''llama3.2:3b'' None
         = (calls @ [ZipWritten out (assemble_files example_gateway fs)], Inr out))"
proof -
  have ok: "\<not> likely_proprietary_spec example_spec"
    by code_simp
  with assembler_totality [of example_gateway "[]" example_spec "''My App''" "''llama3.2:3b''" None]
  show ?thesis by blast
qed

section \<open>Invariants of the crawl loop\<close>

lemma enqueue_loop_appends:
  "\<exists>added. enqueue_loop max_pages vis depth ls q = q @ map (\<lambda>l. (l, depth + 1)) added
      \<and> set added \<subseteq> set ls - fset vis
      \<and> (added \<noteq> [] \<longrightarrow> int (fcard vis) + int (length q) + int (length added) \<le> max_pages)"
proof (induction ls arbitrary: q)
  case Nil
  show ?case by (rule exI [of _ "[]"]) simp
next
  case (Cons l ls)
  show ?case
  proof (cases "l |\<notin>| vis \<and> int (fcard vis) + int (length q) < max_pages")
    case True
    from Cons.IH [of "q @ [(l, depth + 1)]"] obtain added where
      a: "enqueue_loop max_pages vis depth ls (q @ [(l, depth + 1)])
            = (q @ [(l, depth + 1)]) @ map (\<lambda>l. (l, depth + 1)) added"
      and b: "set added \<subseteq> set ls - fset vis"
      and c: "added \<noteq> [] \<longrightarrow>
               int (fcard vis) + int (length (q @ [(l, depth + 1)])) + int (length added) \<le> max_pages"
      by blast
    show ?thesis
    proof (rule exI [of _ "l # added"], intro conjI)
      show "enqueue_loop max_pages vis depth (l # ls) q = q @ map (\<lambda>l. (l, depth + 1)) (l # added)"
        using True a by simp
      show "set (l # added) \<subseteq> set (l # ls) - fset vis"
        using True b by auto
      show "l # added \<noteq> [] \<longrightarrow>
              int (fcard vis) + int (length q) + int (length (l # added)) \<le> max_pages"
        using True c by (cases "added = []") auto
    qed
  next
    case False
    from Cons.IH [of q] obtain added where
      a: "enqueue_loop max_pages vis depth ls q = q @ map (\<lambda>l. (l, depth + 1)) added"
      and b: "set added \<subseteq> set ls - fset vis"
      and c: "added \<noteq> [] \<longrightarrow> int (fcard vis) + int (length q) + int (length added) \<le> max_pages"
      by blast
    show ?thesis
    proof (rule exI [of _ added], intro conjI)
      show "enqueue_loop max_pages vis depth (l # ls) q = q @ map (\<lambda>l. (l, depth + 1)) added"
        using False a by auto
      show "set added \<subseteq> set (l # ls) - fset vis"
        using b by auto
      show "added \<noteq> [] \<longrightarrow> int (fcard vis) + int (length q) + int (length added) \<le> max_pages"
        by (rule c)
    qed
  qed
qed

lemma crawl_iteration_cases [consumes 1, case_names skip visit]:
  assumes "loop_cond max_pages s"
  obtains
    (skip) u depth rest where "queue s = (u, depth) # rest" "u |\<in>| visited s \<or> depth > max_depth"
      "crawl_iteration w start_url max_pages max_depth out_dir s = s\<lparr>queue := rest\<rparr>"
  | (visit) u depth rest added where "queue s = (u, depth) # rest" "u |\<notin>| visited s" "depth \<le> max_depth"
      "int (fcard (visited s)) < max_pages"
      "set added \<subseteq> set (r_links (record_of w start_url out_dir (fcard (visited s)) u))
                     - fset (finsert u (visited s))"
      "added \<noteq> [] \<longrightarrow>
         int (fcard (finsert u (visited s))) + int (length rest) + int (length added) \<le> max_pages"
      "crawl_iteration w start_url max_pages max_depth out_dir s =
         \<lparr>visited = finsert u (visited s),
          queue = rest @ map (\<lambda>l. (l, depth + 1)) added,
          results = (results s)(u \<mapsto> record_of w start_url out_dir (fcard (visited s)) u),
          fetched = fetched s @ [(u, depth)]\<rparr>"
proof -
  from assms obtain u depth rest where q: "queue s = (u, depth) # rest"
    by (cases "queue s") (auto simp: loop_cond_def)
  from assms have lt: "int (fcard (visited s)) < max_pages"
    by (simp add: loop_cond_def)
  show thesis
  proof (cases "u |\<in>| visited s \<or> depth > max_depth")
    case True
    show thesis
      by (rule skip [OF q True]) (use q True in \<open>auto simp: crawl_iteration_def\<close>)
  next
    case False
    let ?rec = "record_of w start_url out_dir (fcard (visited s)) u"
    let ?vis = "finsert u (visited s)"
    from enqueue_loop_appends [of max_pages ?vis depth "r_links ?rec" rest]
    obtain added where
      a: "enqueue_loop max_pages ?vis depth (r_links ?rec) rest = rest @ map (\<lambda>l. (l, depth + 1)) added"
      and b: "set added \<subseteq> set (r_links ?rec) - fset ?vis"
      and c: "added \<noteq> [] \<longrightarrow> int (fcard ?vis) + int (length rest) + int (length added) \<le> max_pages"
      by blast
    have it: "crawl_iteration w start_url max_pages max_depth out_dir s =
         \<lparr>visited = ?vis, queue = rest @ map (\<lambda>l. (l, depth + 1)) added,
          results = (results s)(u \<mapsto> ?rec), fetched = fetched s @ [(u, depth)]\<rparr>"
      using q False a by (simp add: crawl_iteration_def Let_def)
    from False have nv: "u |\<notin>| visited s" and dp: "depth \<le> max_depth" by auto
    show thesis
      by (rule visit [OF q nv dp lt b c it])
  qed
qed

lemma reach_log:
  assumes "crawl_reach w start_url max_pages max_depth out_dir s"
  shows "fset (visited s) = set (map fst (fetched s)) \<and> distinct (map fst (fetched s))
         \<and> length (fetched s) = fcard (visited s) \<and> dom (results s) = fset (visited s)"
  using assms
proof (induction rule: crawl_reach.induct)
  case reach_init
  show ?case by (simp add: initial_state_def)
next
  case (reach_step s)
  from reach_step.hyps(2) show ?case
  proof (cases rule: crawl_iteration_cases [where w = w and start_url = start_url
        and max_depth = max_depth and out_dir = out_dir])
    case (skip u depth rest)
    with reach_step.IH show ?thesis by simp
  next
    case (visit u depth rest added)
    from reach_step.IH have
      v: "fset (visited s) = set (map fst (fetched s))" and d: "distinct (map fst (fetched s))"
      and l: "length (fetched s) = fcard (visited s)" and r: "dom (results s) = fset (visited s)"
      by simp_all
    have nu: "u \<notin> set (map fst (fetched s))"
      using visit(2) v by auto
    have card: "fcard (finsert u (visited s)) = Suc (fcard (visited s))"
      using visit(2) by (simp add: fcard_finsert_disjoint)
    let ?s' = "crawl_iteration w start_url max_pages max_depth out_dir s"
    have sel: "visited ?s' = finsert u (visited s)" "fetched ?s' = fetched s @ [(u, depth)]"
      "results ?s' = (results s)(u \<mapsto> record_of w start_url out_dir (fcard (visited s)) u)"
      unfolding visit(7) by simp_all
    have dm: "dom ((results s)(u \<mapsto> record_of w start_url out_dir (fcard (visited s)) u))
                = fset (finsert u (visited s))"
      unfolding dom_fun_upd r by simp
    have "fset (finsert u (visited s)) = set (map fst (fetched s @ [(u, depth)]))"
      using v by simp
    moreover have "distinct (map fst (fetched s @ [(u, depth)]))"
      using d nu by simp
    moreover have "length (fetched s @ [(u, depth)]) = fcard (finsert u (visited s))"
      using l card by simp
    moreover note dm
    ultimately show ?thesis
      unfolding sel by blast
  qed
qed

lemma reach_budget:
  assumes "crawl_reach w start_url max_pages max_depth out_dir s"
  shows "int (fcard (visited s)) \<le> max 0 max_pages
         \<and> int (fcard (visited s)) + int (length (queue s)) \<le> max 1 max_pages"
  using assms
proof (induction rule: crawl_reach.induct)
  case reach_init
  show ?case by (simp add: initial_state_def fcard_fempty)
next
  case (reach_step s)
  from reach_step.hyps(2) show ?case
  proof (cases rule: crawl_iteration_cases [where w = w and start_url = start_url
        and max_depth = max_depth and out_dir = out_dir])
    case (skip u depth rest)
    with reach_step.IH show ?thesis by auto
  next
    case (visit u depth rest added)
    have card: "fcard (finsert u (visited s)) = Suc (fcard (visited s))"
      using visit(2) by (simp add: fcard_finsert_disjoint)
    show ?thesis
    proof (cases "added = []")
      case True
      with reach_step.IH visit card show ?thesis by auto
    next
      case False
      with reach_step.IH visit card show ?thesis by auto
    qed
  qed
qed

lemma reach_depth:
  assumes "crawl_reach w start_url max_pages max_depth out_dir s"
  shows "(\<forall>(u, d) \<in> set (fetched s). 0 \<le> d \<and> d \<le> max_depth)
         \<and> (\<forall>(u, d) \<in> set (queue s). 0 \<le> d \<and> d \<le> max 0 (max_depth + 1))"
  using assms
proof (induction rule: crawl_reach.induct)
  case reach_init
  show ?case by (simp add: initial_state_def)
next
  case (reach_step s)
  from reach_step.hyps(2) show ?case
  proof (cases rule: crawl_iteration_cases [where w = w and start_url = start_url
        and max_depth = max_depth and out_dir = out_dir])
    case (skip u depth rest)
    with reach_step.IH show ?thesis by auto
  next
    case (visit u depth rest added)
    with reach_step.IH have d0: "0 \<le> depth" by auto
    with reach_step.IH visit show ?thesis by auto
  qed
qed

lemma reach_records:
  assumes "crawl_reach w start_url max_pages max_depth out_dir s" "results s u = Some r"
  shows "\<exists>k < length (fetched s). fst (fetched s ! k) = u \<and> r = record_of w start_url out_dir k u"
  using assms
proof (induction arbitrary: u r rule: crawl_reach.induct)
  case reach_init
  then show ?case by (simp add: initial_state_def)
next
  case (reach_step s)
  from reach_step.hyps(2) show ?case
  proof (cases rule: crawl_iteration_cases [where w = w and start_url = start_url
        and max_depth = max_depth and out_dir = out_dir])
    case (skip v depth rest)
    with reach_step.IH [of u r] reach_step.prems show ?thesis by simp
  next
    case (visit v depth rest added)
    have len: "length (fetched s) = fcard (visited s)"
      using reach_log [OF reach_step.hyps(1)] by simp
    show ?thesis
    proof (cases "u = v")
      case True
      with visit reach_step.prems have "r = record_of w start_url out_dir (fcard (visited s)) v"
        by simp
      with True visit(7) len [symmetric] show ?thesis
        by (auto intro!: exI [of _ "length (fetched s)"])
    next
      case False
      with visit reach_step.prems have "results s u = Some r" by simp
      from reach_step.IH [OF this] obtain k where
        "k < length (fetched s)" "fst (fetched s ! k) = u" "r = record_of w start_url out_dir k u"
        by blast
      with visit(7) show ?thesis
        by (auto intro!: exI [of _ k] simp: nth_append)
    qed
  qed
qed

lemma crawl_loop_reach:
  "crawl_reach w start_url max_pages max_depth out_dir s \<Longrightarrow>
   crawl_reach w start_url max_pages max_depth out_dir
     (crawl_loop w start_url max_pages max_depth out_dir s)"
proof (induction w start_url max_pages max_depth out_dir s rule: crawl_loop.induct)
  case (1 w start_url max_pages max_depth out_dir s)
  show ?case
  proof (cases "loop_cond max_pages s")
    case True
    with 1 show ?thesis
      by (subst crawl_loop.simps) (simp add: reach_step)
  next
    case False
    with 1 show ?thesis
      by (subst crawl_loop.simps) simp
  qed
qed

lemma crawl_loop_done:
  "\<not> loop_cond max_pages (crawl_loop w start_url max_pages max_depth out_dir s)"
proof (induction w start_url max_pages max_depth out_dir s rule: crawl_loop.induct)
  case (1 w start_url max_pages max_depth out_dir s)
  show ?case
  proof (cases "loop_cond max_pages s")
    case True
    with 1 show ?thesis
      by (subst crawl_loop.simps) simp
  next
    case False
    then show ?thesis
      by (subst crawl_loop.simps) simp
  qed
qed

lemma crawl_result:
  assumes "crawl w start_url max_pages max_depth out_dir = (log, Inr res)"
  shows "\<exists>s. crawl_reach w start_url max_pages max_depth out_dir s \<and> \<not> loop_cond max_pages s
             \<and> log = fetched s \<and> res = results s"
proof -
  let ?s = "crawl_loop w start_url max_pages max_depth out_dir (initial_state start_url)"
  from assms have "log = fetched ?s" "res = results ?s"
    by (auto simp: crawl_def Let_def split: if_splits)
  moreover have "crawl_reach w start_url max_pages max_depth out_dir ?s"
    by (rule crawl_loop_reach) (rule reach_init)
  moreover have "\<not> loop_cond max_pages ?s"
    by (rule crawl_loop_done)
  ultimately show ?thesis by blast
qed

lemma record_of_url: "r_url (record_of w start_url out_dir k u) = u"
  by (simp add: record_of_def Let_def)

lemma link_loop_step:
  "link_loop w start_url u (href # rest) links =
     (if netloc_kept w start_url u href
      then link_loop w start_url u rest (set_add (link_target w u href) links)
      else link_loop w start_url u rest links)"
  by (simp add: netloc_kept_def link_target_def Let_def)

lemma set_set_add: "set (set_add x xs) = insert x (set xs)"
  by (simp add: set_add_def insert_absorb)

lemma distinct_set_add: "distinct xs \<Longrightarrow> distinct (set_add x xs)"
  by (simp add: set_add_def)

lemma link_loop_spec:
  "set (link_loop w start_url u hrefs links) = set links \<union> netloc_links w start_url u hrefs"
proof (induction hrefs arbitrary: links)
  case Nil
  show ?case by (simp add: netloc_links_def)
next
  case (Cons href rest)
  show ?case
  proof (cases "netloc_kept w start_url u href")
    case True
    then have "netloc_links w start_url u (href # rest)
        = insert (link_target w u href) (netloc_links w start_url u rest)"
      unfolding netloc_links_def by auto
    with True show ?thesis
      unfolding link_loop_step by (simp add: Cons.IH set_set_add)
  next
    case False
    then have "netloc_links w start_url u (href # rest) = netloc_links w start_url u rest"
      unfolding netloc_links_def by auto
    with False show ?thesis
      unfolding link_loop_step by (simp add: Cons.IH)
  qed
qed

lemma link_loop_distinct: "distinct links \<Longrightarrow> distinct (link_loop w start_url u hrefs links)"
proof (induction hrefs arbitrary: links)
  case Nil
  then show ?case by simp
next
  case (Cons href rest)
  then show ?case
    unfolding link_loop_step by (simp add: distinct_set_add)
qed

lemma record_of_links:
  "distinct (r_links (record_of w start_url out_dir k u))
   \<and> set (r_links (record_of w start_url out_dir k u)) =
       netloc_links w start_url u (anchor_hrefs (html_parser w (captured_content w k u)))"
proof -
  let ?soup = "html_parser w (captured_content w k u)"
  have r: "r_links (record_of w start_url out_dir k u)
      = sort_key (set_rank w k) (link_loop w start_url u (anchor_hrefs ?soup) [])"
    by (simp add: record_of_def Let_def page_links_def)
  have d: "distinct (link_loop w start_url u (anchor_hrefs ?soup) [])"
    by (rule link_loop_distinct) simp
  show ?thesis
    unfolding r using d by (simp add: link_loop_spec)
qed

lemma crawl_runs:
  assumes "makedirs_ok w" "\<not> likely_proprietary_domain w start_url" "browser_ok w"
  shows "crawl w start_url max_pages max_depth out_dir =
           (fetched (crawl_loop w start_url max_pages max_depth out_dir (initial_state start_url)),
            Inr (results (crawl_loop w start_url max_pages max_depth out_dir (initial_state start_url))))"
  using assms by (simp add: crawl_def Let_def)

lemma example_web_runs:
  "makedirs_ok example_web" "\<not> likely_proprietary_domain example_web example_start"
  "browser_ok example_web"
  by code_simp+

section \<open>The claims about the crawl\<close>

lemma example_run:
  "crawl example_web example_start 10 2 ''out'' =
     (fetched (crawl_loop example_web example_start 10 2 ''out'' (initial_state example_start)),
      Inr (results (crawl_loop example_web example_start 10 2 ''out'' (initial_state example_start))))"
  by (rule crawl_runs) (rule example_web_runs)+

lemma example_reach1:
  "crawl_reach example_web example_start 10 max_depth ''out'' (example_state1 max_depth)"
proof -
  have "loop_cond 10 (initial_state example_start)"
    by code_simp
  then show ?thesis
    unfolding example_state1_def by (rule reach_step [OF reach_init])
qed

lemma example_reach2: "crawl_reach example_web example_start 10 2 ''out'' example_state2"
proof -
  have "loop_cond 10 (example_state1 2)"
    by code_simp
  then show ?thesis
    unfolding example_state2_def by (rule reach_step [OF example_reach1])
qed

text \<open>
  Claim C2. In every state that a crawl run goes through, the number of visited URLs is at
  most \<open>max_pages\<close> (for a negative \<open>max_pages\<close> nothing is visited at all), no URL is
  fetched twice, the fetched URLs are the visited ones, and every visited URL has exactly
  one record in \<open>results\<close>, stored under its own URL, whatever the capture gave. When an
  iteration has enqueued a link, \<open>|visited| + |queue|\<close> is at most \<open>max_pages\<close> after it:
  every append happened while the sum was below \<open>max_pages\<close>. The mapping that \<open>crawl\<close>
  returns has one record for each fetched URL.
\<close>

theorem crawl_budget:
  assumes "crawl_reach w start_url max_pages max_depth out_dir s"
  shows "int (fcard (visited s)) \<le> max 0 max_pages
         \<and> (0 \<le> max_pages \<longrightarrow> int (fcard (visited s)) \<le> max_pages)
         \<and> distinct (map fst (fetched s))
         \<and> fset (visited s) = set (map fst (fetched s))
         \<and> length (fetched s) = fcard (visited s)
         \<and> dom (results s) = fset (visited s)
         \<and> (\<forall>u r. results s u = Some r \<longrightarrow> r_url r = u)
         \<and> (loop_cond max_pages s
              \<and> length (tl (queue s))
                  < length (queue (crawl_iteration w start_url max_pages max_depth out_dir s))
            \<longrightarrow> int (fcard (visited (crawl_iteration w start_url max_pages max_depth out_dir s)))
                  + int (length (queue (crawl_iteration w start_url max_pages max_depth out_dir s)))
                \<le> max_pages)
         \<and> (\<forall>log res. crawl w start_url max_pages max_depth out_dir = (log, Inr res) \<longrightarrow>
               dom res = set (map fst log) \<and> distinct (map fst log)
               \<and> int (length log) \<le> max 0 max_pages)"
proof -
  note log = reach_log [OF assms]
  note budget = reach_budget [OF assms]
  have urls: "\<forall>u r. results s u = Some r \<longrightarrow> r_url r = u"
  proof (intro allI impI)
    fix u r
    assume "results s u = Some r"
    from reach_records [OF assms this] obtain k where "r = record_of w start_url out_dir k u"
      by blast
    then show "r_url r = u"
      by (simp add: record_of_url)
  qed
  have grow: "int (fcard (visited (crawl_iteration w start_url max_pages max_depth out_dir s)))
                  + int (length (queue (crawl_iteration w start_url max_pages max_depth out_dir s)))
                \<le> max_pages"
    if c: "loop_cond max_pages s"
      and g: "length (tl (queue s))
                < length (queue (crawl_iteration w start_url max_pages max_depth out_dir s))"
  proof -
    from c show ?thesis
    proof (cases rule: crawl_iteration_cases [where w = w and start_url = start_url
          and max_depth = max_depth and out_dir = out_dir])
      case (skip u depth rest)
      with g show ?thesis by simp
    next
      case (visit u depth rest added)
      from g visit(1,7) have "added \<noteq> []" by auto
      with visit(6) show ?thesis
        unfolding visit(7) by simp
    qed
  qed
  have final: "dom res = set (map fst log) \<and> distinct (map fst log)
               \<and> int (length log) \<le> max 0 max_pages"
    if "crawl w start_url max_pages max_depth out_dir = (log, Inr res)" for log res
  proof -
    from crawl_result [OF that] obtain t where
      t: "crawl_reach w start_url max_pages max_depth out_dir t" "log = fetched t" "res = results t"
      by blast
    from reach_log [OF t(1)] reach_budget [OF t(1)] t(2,3) show ?thesis by simp
  qed
  have nonneg: "0 \<le> max_pages \<longrightarrow> int (fcard (visited s)) \<le> max_pages"
    using budget by auto
  have grow': "loop_cond max_pages s
              \<and> length (tl (queue s))
                  < length (queue (crawl_iteration w start_url max_pages max_depth out_dir s))
            \<longrightarrow> int (fcard (visited (crawl_iteration w start_url max_pages max_depth out_dir s)))
                  + int (length (queue (crawl_iteration w start_url max_pages max_depth out_dir s)))
                \<le> max_pages"
    using grow by blast
  have final': "\<forall>log res. crawl w start_url max_pages max_depth out_dir = (log, Inr res) \<longrightarrow>
               dom res = set (map fst log) \<and> distinct (map fst log)
               \<and> int (length log) \<le> max 0 max_pages"
    using final by blast
  from budget have b1: "int (fcard (visited s)) \<le> max 0 max_pages" by (rule conjunct1)
  from log have l1: "fset (visited s) = set (map fst (fetched s))"
    and l2: "distinct (map fst (fetched s))"
    and l3: "length (fetched s) = fcard (visited s)"
    and l4: "dom (results s) = fset (visited s)"
    by blast+
  show ?thesis
    by (intro conjI) (rule b1 nonneg l1 l2 l3 l4 urls grow' final')+
qed

text \<open>
  The hypotheses of C2 hold in the example crawl: its first iteration starts in a reachable
  state, enqueues two links, and the run returns a mapping.
\<close>

theorem crawl_budget_witness:
  "crawl_reach example_web example_start 10 2 ''out'' (initial_state example_start)
   \<and> (0::int) \<le> 10
   \<and> loop_cond 10 (initial_state example_start)
   \<and> length (tl (queue (initial_state example_start))) < length (queue (example_state1 2))
   \<and> int (fcard (visited (example_state1 2))) + int (length (queue (example_state1 2))) \<le> 10
   \<and> int (fcard (visited (initial_state example_start))) \<le> 10
   \<and> (\<exists>log res. crawl example_web example_start 10 2 ''out'' = (log, Inr res)
         \<and> dom res = set (map fst log) \<and> distinct (map fst log) \<and> int (length log) \<le> 10)"
proof -
  have r: "crawl_reach example_web example_start 10 2 ''out'' (initial_state example_start)"
    by (rule reach_init)
  have c: "loop_cond 10 (initial_state example_start)"
    by code_simp
  have g: "length (tl (queue (initial_state example_start))) < length (queue (example_state1 2))"
    by code_simp
  note b = crawl_budget [OF r]
  from b c g have
    "int (fcard (visited (example_state1 2))) + int (length (queue (example_state1 2))) \<le> 10"
    unfolding example_state1_def by blast
  moreover from b have "int (fcard (visited (initial_state example_start))) \<le> 10"
    by simp
  moreover have "\<exists>log res. crawl example_web example_start 10 2 ''out'' = (log, Inr res)
         \<and> dom res = set (map fst log) \<and> distinct (map fst log) \<and> int (length log) \<le> 10"
  proof -
    let ?s = "crawl_loop example_web example_start 10 2 ''out'' (initial_state example_start)"
    from b have "\<forall>log res. crawl example_web example_start 10 2 ''out'' = (log, Inr res) \<longrightarrow>
               dom res = set (map fst log) \<and> distinct (map fst log)
               \<and> int (length log) \<le> max 0 10"
      by (elim conjE)
    from this [rule_format, OF example_run]
    have "dom (results ?s) = set (map fst (fetched ?s)) \<and> distinct (map fst (fetched ?s))
          \<and> int (length (fetched ?s)) \<le> 10"
      by simp
    with example_run show ?thesis
      by (intro exI conjI) (assumption | erule conjunct1 | erule conjunct2 [THEN conjunct1]
        | erule conjunct2 [THEN conjunct2])+
  qed
  ultimately show ?thesis
    using r c g by simp
qed

text \<open>
  Claim C5, as stated, fails. In the example crawl the page \<open>/b\<close> links to \<open>/c\<close> while
  \<open>/c\<close> waits in the queue: after two iterations \<open>/c\<close> is in the queue twice, because the
  loop tests a link against \<open>visited\<close> only. With \<open>max_depth = 0\<close> the task dequeued in the
  second iteration has depth 1: the depth is tested after the task is taken off the queue.
\<close>

theorem queue_discipline_counterexample:
  "crawl_reach example_web example_start 10 2 ''out'' example_state2
   \<and> queue example_state2 = [(''http://example.org/c'', 1), (''http://example.org/c'', 2)]
   \<and> \<not> distinct (map fst (queue example_state2))
   \<and> crawl_reach example_web example_start 10 0 ''out'' (example_state1 0)
   \<and> loop_cond 10 (example_state1 0)
   \<and> hd (queue (example_state1 0)) = (''http://example.org/b'', 1)
   \<and> \<not> snd (hd (queue (example_state1 0))) \<le> 0"
proof -
  have q2: "queue example_state2 = [(''http://example.org/c'', 1), (''http://example.org/c'', 2)]"
    by code_simp
  have c1: "loop_cond 10 (example_state1 0)"
    by code_simp
  have h1: "hd (queue (example_state1 0)) = (''http://example.org/b'', 1)"
    by code_simp
  show ?thesis
    using example_reach2 example_reach1 [of 0] q2 c1 h1 by simp
qed

text \<open>
  Claim C5, amended. Throughout every crawl run no URL is fetched twice, every task that
  is fetched has a depth of at most \<open>max_depth\<close>, and every task in the queue has a depth of
  at most \<open>max_depth + 1\<close> (at most 0 for a negative \<open>max_depth\<close>). An iteration appends to
  the queue only links that are not visited (they may be in the queue already), and a
  dequeued task whose depth is above \<open>max_depth\<close> is dropped without a fetch.
\<close>

theorem queue_discipline:
  assumes "crawl_reach w start_url max_pages max_depth out_dir s"
  shows "distinct (map fst (fetched s))
         \<and> (\<forall>(u, d) \<in> set (fetched s). d \<le> max_depth)
         \<and> (\<forall>(u, d) \<in> set (queue s). d \<le> max 0 (max_depth + 1))
         \<and> (loop_cond max_pages s \<longrightarrow>
              (\<exists>added. queue (crawl_iteration w start_url max_pages max_depth out_dir s)
                         = tl (queue s) @ added
                 \<and> (\<forall>(l, d) \<in> set added.
                        l |\<notin>| visited (crawl_iteration w start_url max_pages max_depth out_dir s))))
         \<and> (loop_cond max_pages s \<and> max_depth < snd (hd (queue s)) \<longrightarrow>
              fetched (crawl_iteration w start_url max_pages max_depth out_dir s) = fetched s)"
proof -
  note depth = reach_depth [OF assms]
  have d1: "\<forall>(u, d) \<in> set (fetched s). d \<le> max_depth"
    using depth by auto
  have d2: "\<forall>(u, d) \<in> set (queue s). d \<le> max 0 (max_depth + 1)"
    using depth by auto
  have enq: "\<exists>added. queue (crawl_iteration w start_url max_pages max_depth out_dir s)
                         = tl (queue s) @ added
                 \<and> (\<forall>(l, d) \<in> set added.
                        l |\<notin>| visited (crawl_iteration w start_url max_pages max_depth out_dir s))"
    if c: "loop_cond max_pages s"
  proof -
    from c show ?thesis
    proof (cases rule: crawl_iteration_cases [where w = w and start_url = start_url
          and max_depth = max_depth and out_dir = out_dir])
      case (skip u depth rest)
      show ?thesis
        by (rule exI [of _ "[]"]) (simp add: skip)
    next
      case (visit u depth rest added)
      show ?thesis
        by (rule exI [of _ "map (\<lambda>l. (l, depth + 1)) added"]) (use visit(1,5) in \<open>auto simp: visit(7)\<close>)
    qed
  qed
  have skipped: "fetched (crawl_iteration w start_url max_pages max_depth out_dir s) = fetched s"
    if c: "loop_cond max_pages s" and deep: "max_depth < snd (hd (queue s))"
  proof -
    from c show ?thesis
    proof (cases rule: crawl_iteration_cases [where w = w and start_url = start_url
          and max_depth = max_depth and out_dir = out_dir])
      case (skip u depth rest)
      then show ?thesis by simp
    next
      case (visit u depth rest added)
      with deep show ?thesis by simp
    qed
  qed
  from reach_log [OF assms] have l2: "distinct (map fst (fetched s))" by blast
  show ?thesis
    using l2 d1 d2 enq skipped by blast
qed

text \<open>The hypotheses of the amended C5 hold in the example crawl with \<open>max_depth = 0\<close>.\<close>

theorem queue_discipline_witness:
  "crawl_reach example_web example_start 10 0 ''out'' (example_state1 0)
   \<and> loop_cond 10 (example_state1 0)
   \<and> 0 < snd (hd (queue (example_state1 0)))
   \<and> fetched (crawl_iteration example_web example_start 10 0 ''out'' (example_state1 0))
       = fetched (example_state1 0)
   \<and> fetched (example_state1 0) = [(example_start, 0)]"
proof -
  have c1: "loop_cond 10 (example_state1 0)"
    by code_simp
  have h1: "0 < snd (hd (queue (example_state1 0)))"
    by code_simp
  have f1: "fetched (example_state1 0) = [(example_start, 0)]"
    by code_simp
  from queue_discipline [OF example_reach1 [of 0]] c1 h1
  have "fetched (crawl_iteration example_web example_start 10 0 ''out'' (example_state1 0))
       = fetched (example_state1 0)"
    by blast
  with example_reach1 [of 0] c1 h1 f1 show ?thesis by simp
qed

text \<open>
  Claim C8, as stated, fails. The start page of the second example site has the links
  \<open>http://EXAMPLE.org/b\<close> and \<open>http://example.org:80/c\<close>, whose host is the host
  \<open>example.org\<close> of the start URL, and the link \<open>/d\<close>. The code compares the \<open>netloc\<close>,
  which is \<open>EXAMPLE.org\<close> and \<open>example.org:80\<close> for the first two, and records only
  \<open>http://example.org/d\<close>.
\<close>

theorem recorded_links_counterexample:
  "url_hostname ''http://EXAMPLE.org/b'' = url_hostname example_start
   \<and> url_hostname ''http://example.org:80/c'' = url_hostname example_start
   \<and> netloc example_web_hosts ''http://EXAMPLE.org/b'' = ''EXAMPLE.org''
   \<and> netloc example_web_hosts ''http://example.org:80/c'' = ''example.org:80''
   \<and> netloc example_web_hosts example_start = ''example.org''
   \<and> (case snd (crawl example_web_hosts example_start 10 2 ''out'') of
          Inl e \<Rightarrow> None
        | Inr res \<Rightarrow> map_option r_links (res example_start))
       = Some [''http://example.org/d'']
   \<and> ''http://EXAMPLE.org/b'' \<in>
         host_links url_hostname example_web_hosts example_start example_start
           (anchor_hrefs (html_parser example_web_hosts
              (captured_content example_web_hosts 0 example_start)))
   \<and> ''http://example.org:80/c'' \<in>
         host_links url_hostname example_web_hosts example_start example_start
           (anchor_hrefs (html_parser example_web_hosts
              (captured_content example_web_hosts 0 example_start)))
   \<and> ''http://EXAMPLE.org/b'' \<notin> set [''http://example.org/d'']
   \<and> ''http://example.org:80/c'' \<notin> set [''http://example.org/d'']"
  by code_simp

text \<open>
  Claim C8, amended. For every page in the mapping that \<open>crawl\<close> returns, the recorded
  links, taken as a set, are exactly these: the \<open>href\<close> values of the anchors of the
  captured content that do not start with \<open>javascript:\<close> or \<open>#\<close>, resolved against the
  page URL, whose \<open>netloc\<close> (the authority as written: the host in the case of the text,
  with port and user information) equals the \<open>netloc\<close> of the start URL, each cut before
  its first \<open>#\<close>; and no link is recorded twice.
\<close>

theorem recorded_links:
  assumes "crawl w start_url max_pages max_depth out_dir = (log, Inr res)" and "res u = Some r"
  shows "\<exists>k < length log. fst (log ! k) = u
           \<and> distinct (r_links r)
           \<and> set (r_links r) =
               netloc_links w start_url u (anchor_hrefs (html_parser w (captured_content w k u)))"
proof -
  from crawl_result [OF assms(1)] obtain s where
    s: "crawl_reach w start_url max_pages max_depth out_dir s" "log = fetched s" "res = results s"
    by blast
  from reach_records [OF s(1), of u r] assms(2) s(3) obtain k where
    k: "k < length (fetched s)" "fst (fetched s ! k) = u" "r = record_of w start_url out_dir k u"
    by blast
  show ?thesis
    using k s(2) record_of_links [of w start_url out_dir k u] by blast
qed

text \<open>
  The hypotheses of the amended C8 hold for the start page of the example crawl, whose five anchors
  give the two links \<open>/b\<close> and \<open>/c\<close>.
\<close>

theorem recorded_links_witness:
  "\<exists>log res r k.
     crawl example_web example_start 10 2 ''out'' = (log, Inr res)
     \<and> res example_start = Some r
     \<and> r_links r = [''http://example.org/b'', ''http://example.org/c'']
     \<and> k < length log
     \<and> set (r_links r) =
         netloc_links example_web example_start example_start
           (anchor_hrefs (html_parser example_web (captured_content example_web k example_start)))"
proof -
  let ?s = "crawl_loop example_web example_start 10 2 ''out'' (initial_state example_start)"
  have rec: "results ?s example_start = Some (record_of example_web example_start ''out'' 0 example_start)"
    by code_simp
  have links: "r_links (record_of example_web example_start ''out'' 0 example_start)
      = [''http://example.org/b'', ''http://example.org/c'']"
    by code_simp
  from recorded_links [OF example_run rec] links example_run rec show ?thesis
    by blast
qed

text \<open>
  Claim C10. In every record of the mapping that \<open>crawl\<close> returns, the \<open>html\<close> field is
  not \<open>None\<close>: it is the absolute path of the HTML file of that capture, also when the
  content could not be read (the record then holds the text of the empty document); the
  \<open>screenshot\<close> field is \<open>None\<close> exactly when the screenshot file does not exist.
\<close>

theorem page_record_fields:
  assumes "crawl w start_url max_pages max_depth out_dir = (log, Inr res)" and "res u = Some r"
  shows "r_html r \<noteq> None
         \<and> (\<exists>k < length log. fst (log ! k) = u
               \<and> r_html r = Some (abspath w (html_path w out_dir k u))
               \<and> (r_screenshot r = None \<longleftrightarrow> \<not> screenshot_exists w k u)
               \<and> (page_content w k u = None \<longrightarrow> r_text_snippet r = take 2000 (get_text_strip '' '' (html_parser w []))))"
proof -
  from crawl_result [OF assms(1)] obtain s where
    s: "crawl_reach w start_url max_pages max_depth out_dir s" "log = fetched s" "res = results s"
    by blast
  from reach_records [OF s(1), of u r] assms(2) s(3) obtain k where
    k: "k < length (fetched s)" "fst (fetched s ! k) = u" "r = record_of w start_url out_dir k u"
    by blast
  have "r_html r = Some (abspath w (html_path w out_dir k u))"
    "r_screenshot r = None \<longleftrightarrow> \<not> screenshot_exists w k u"
    "page_content w k u = None \<longrightarrow> r_text_snippet r = take 2000 (get_text_strip '' '' (html_parser w []))"
    unfolding k(3) by (simp_all add: record_of_def Let_def captured_content_def)
  with k s(2) show ?thesis by auto
qed

text \<open>
  The hypotheses of C10 hold for the page \<open>/c\<close> of the example crawl, whose content cannot
  be read and whose screenshot does not exist.
\<close>

theorem page_record_fields_witness:
  "\<exists>log res r.
     crawl example_web example_start 10 2 ''out'' = (log, Inr res)
     \<and> res ''http://example.org/c'' = Some r
     \<and> page_content example_web 2 ''http://example.org/c'' = None
     \<and> \<not> screenshot_exists example_web 2 ''http://example.org/c''
     \<and> r_html r = Some ''/work/out/example.org_c_1700000000.html''
     \<and> r_html r \<noteq> None
     \<and> r_screenshot r = None"
proof -
  let ?s = "crawl_loop example_web example_start 10 2 ''out'' (initial_state example_start)"
  let ?r = "record_of example_web example_start ''out'' 2 ''http://example.org/c''"
  have rec: "results ?s ''http://example.org/c'' = Some ?r"
    by code_simp
  have env: "page_content example_web 2 ''http://example.org/c'' = None"
    "\<not> screenshot_exists example_web 2 ''http://example.org/c''"
    by code_simp+
  have fields: "r_html ?r = Some ''/work/out/example.org_c_1700000000.html''" "r_screenshot ?r = None"
    by code_simp+
  from page_record_fields [OF example_run rec] have "r_html ?r \<noteq> None"
    by blast
  with example_run rec env fields show ?thesis
    by blast
qed

section \<open>The claim about the clickable entries\<close>

lemma clickable_loop_append: "clickable_loop bs comps = comps @ map clickable_of bs"
  by (induction bs arbitrary: comps) simp_all

lemma clickable_of_fields:
  "is_clickable (clickable_of b)"
  "c_tag (clickable_of b) = tag_name b"
  "c_role (clickable_of b)
     = (if tag_name b = ''a'' then ''link'' else if tag_name b = ''button'' then ''button'' else ''input'')"
  by (simp_all add: clickable_of_def Let_def)

lemma not_clickable:
  "\<not> is_clickable (form_of n)" "\<not> is_clickable (nav_of n)" "\<not> is_clickable (list_of n)"
  "\<not> is_clickable (table_of n)"
  by (simp_all add: form_of_def nav_of_def list_of_def table_of_def Let_def)

lemma filter_clickable_map:
  "filter is_clickable (map clickable_of bs) = map clickable_of bs"
  "filter is_clickable (map form_of ns) = []"
  "filter is_clickable (map nav_of ns) = []"
  "filter is_clickable (map list_of ns) = []"
  "filter is_clickable (map table_of ns) = []"
  by (simp_all add: filter_empty_conv clickable_of_fields not_clickable)

lemma clickable_components:
  "filter is_clickable (components (extract_components_from_html soup u))
     = map clickable_of (find_all [''button'', ''a'', ''input''] soup)"
  by (simp add: extract_components_from_html_def Let_def clickable_loop_append filter_clickable_map)

text \<open>
  Claim C9: the code at the inputs where it misses the claim. The source chooses between
  the text of the element, \<open>value\<close> and \<open>aria-label\<close> before it strips the white space. An
  icon button whose children are an \<open>svg\<close> element and line breaks, with the \<open>aria-label\<close>
  \<open>Close\<close>, has no visible text, and the specification gives its entry the text \<open>Close\<close>;
  the entry of the code has the empty text. The same holds for a button with the \<open>value\<close>
  \<open>Go\<close> whose text is one blank. Without children the icon button gets the text \<open>Close\<close>
  from the code as well.
\<close>

theorem clickable_text_falls_back_too_early:
  "get_text example_icon_button = [CHR 0x0A, CHR '' '', CHR '' '', CHR 0x0A]
   \<and> py_strip (get_text example_icon_button) = []
   \<and> spec_clickable_text example_icon_button = ''Close''
   \<and> components (extract_components_from_html (example_document example_icon_button) None)
       = [Clickable ''button'' ''button'' [] [] None []]
   \<and> spec_clickable_text example_button = ''Go''
   \<and> components (extract_components_from_html (example_document example_button) None)
       = [Clickable ''button'' ''button'' [] [] None []]
   \<and> spec_clickable_text example_empty_button = ''Close''
   \<and> components (extract_components_from_html (example_document example_empty_button) None)
       = [Clickable ''button'' ''button'' [] ''Close'' None []]"
  by code_simp

section \<open>The claims about the policy checks\<close>

lemma startswith_iff: "startswith s p \<longleftrightarrow> (\<exists>post. s = p @ post)"
proof
  assume "startswith s p"
  then have "s = p @ drop (length p) s"
    unfolding startswith_def by (metis append_take_drop_id)
  then show "\<exists>post. s = p @ post" ..
next
  assume "\<exists>post. s = p @ post"
  then show "startswith s p"
    by (auto simp: startswith_def)
qed

lemma py_in_iff: "py_in sub s \<longleftrightarrow> (\<exists>pre post. s = pre @ sub @ post)"
proof (induction s)
  case Nil
  show ?case by simp
next
  case (Cons c cs)
  show ?case
  proof
    assume "py_in sub (c # cs)"
    then consider "startswith (c # cs) sub" | "py_in sub cs" by auto
    then show "\<exists>pre post. c # cs = pre @ sub @ post"
    proof cases
      case 1
      then obtain post where "c # cs = sub @ post"
        unfolding startswith_iff ..
      then have "c # cs = [] @ sub @ post" by simp
      then show ?thesis by blast
    next
      case 2
      with Cons.IH obtain pre post where "cs = pre @ sub @ post" by blast
      then have "c # cs = (c # pre) @ sub @ post" by simp
      then show ?thesis by blast
    qed
  next
    assume "\<exists>pre post. c # cs = pre @ sub @ post"
    then obtain pre post where eq: "c # cs = pre @ sub @ post" by blast
    show "py_in sub (c # cs)"
    proof (cases pre)
      case Nil
      with eq have "startswith (c # cs) sub"
        unfolding startswith_iff by auto
      then show ?thesis by simp
    next
      case (Cons a pre')
      with eq have "cs = pre' @ sub @ post" by simp
      with Cons.IH have "py_in sub cs" by blast
      then show ?thesis by simp
    qed
  qed
qed

lemma contains_ci_py_in: "contains_ci t m \<Longrightarrow> py_lower m = m \<Longrightarrow> py_in m (py_lower t)"
proof -
  assume "contains_ci t m" and low: "py_lower m = m"
  then obtain pre x post where "t = pre @ x @ post" "py_lower x = m"
    unfolding contains_ci_def by auto
  then have "py_lower t = py_lower pre @ m @ py_lower post"
    by (simp add: py_lower_def)
  then show ?thesis
    unfolding py_in_iff by blast
qed

lemma markers_lower:
  "list_all (\<lambda>m. py_lower m = m) PROPRIETARY_MARKERS_crawler"
  "list_all (\<lambda>m. py_lower m = m) PROPRIETARY_MARKERS_gen"
  by code_simp+

lemma marker_crawler:
  assumes "m \<in> set PROPRIETARY_MARKERS_crawler" "contains_ci (netloc w u) m"
  shows "likely_proprietary_domain w u"
proof -
  from assms(1) markers_lower(1) have "py_lower m = m"
    by (simp add: list_all_iff)
  with assms(2) have "py_in m (py_lower (netloc w u))"
    by (rule contains_ci_py_in)
  with assms(1) show ?thesis
    unfolding likely_proprietary_domain_def list_ex_iff by blast
qed

lemma marker_gen:
  assumes "m \<in> set PROPRIETARY_MARKERS_gen" "contains_ci t m"
  shows "list_ex (\<lambda>x. py_in x (py_lower t)) PROPRIETARY_MARKERS_gen"
proof -
  from assms(1) markers_lower(2) have "py_lower m = m"
    by (simp add: list_all_iff)
  with assms(2) have "py_in m (py_lower t)"
    by (rule contains_ci_py_in)
  with assms(1) show ?thesis
    unfolding list_ex_iff by blast
qed

lemma crawl_aborts: "likely_proprietary_domain w u \<Longrightarrow> \<exists>e. crawl w u max_pages max_depth out_dir = ([], Inl e)"
  by (simp add: crawl_def)

lemma generate_aborts:
  "likely_proprietary_spec spec \<Longrightarrow>
   generate_scaffold g spec app_name model out_zip = ([], Inl PolicyViolation)"
  by (simp add: generate_scaffold_def)

text \<open>
  Claim C4. When the host part of the start URL (the \<open>netloc\<close> that \<open>urlparse\<close> gives, of
  which the host name is a part) contains a marker of the crawler's list without regard to
  case, \<open>crawl\<close> raises and no page has been fetched. When the domain of the UX spec or
  the title of one of its pages contains a marker of the generator's list without regard
  to case, \<open>generate_scaffold\<close> raises the policy violation, and no model call has been made
  and no archive written.
\<close>

theorem policy_abort:
  "((\<exists>m \<in> set PROPRIETARY_MARKERS_crawler. contains_ci (netloc w start_url) m) \<longrightarrow>
      (\<exists>e. crawl w start_url max_pages max_depth out_dir = ([], Inl e)))
   \<and> ((\<exists>m \<in> set PROPRIETARY_MARKERS_gen. contains_ci (or_empty (domain spec)) m)
        \<or> (\<exists>p \<in> set (pages spec). \<exists>m \<in> set PROPRIETARY_MARKERS_gen. contains_ci (or_empty (title p)) m)
      \<longrightarrow> generate_scaffold g spec app_name model out_zip = ([], Inl PolicyViolation))"
proof (intro conjI impI)
  assume "\<exists>m \<in> set PROPRIETARY_MARKERS_crawler. contains_ci (netloc w start_url) m"
  then have "likely_proprietary_domain w start_url"
    by (blast intro: marker_crawler)
  then show "\<exists>e. crawl w start_url max_pages max_depth out_dir = ([], Inl e)"
    by (rule crawl_aborts)
next
  assume "(\<exists>m \<in> set PROPRIETARY_MARKERS_gen. contains_ci (or_empty (domain spec)) m)
        \<or> (\<exists>p \<in> set (pages spec). \<exists>m \<in> set PROPRIETARY_MARKERS_gen. contains_ci (or_empty (title p)) m)"
  then have "likely_proprietary_spec spec"
  proof
    assume "\<exists>m \<in> set PROPRIETARY_MARKERS_gen. contains_ci (or_empty (domain spec)) m"
    then have "list_ex (\<lambda>x. py_in x (py_lower (or_empty (domain spec)))) PROPRIETARY_MARKERS_gen"
      by (blast intro: marker_gen)
    then show ?thesis
      by (simp add: likely_proprietary_spec_def)
  next
    assume "\<exists>p \<in> set (pages spec). \<exists>m \<in> set PROPRIETARY_MARKERS_gen. contains_ci (or_empty (title p)) m"
    then obtain p where p: "p \<in> set (pages spec)"
      and "\<exists>m \<in> set PROPRIETARY_MARKERS_gen. contains_ci (or_empty (title p)) m"
      by blast
    then have "list_ex (\<lambda>x. py_in x (py_lower (or_empty (title p)))) PROPRIETARY_MARKERS_gen"
      by (blast intro: marker_gen)
    with p have "list_ex (\<lambda>p. list_ex (\<lambda>x. py_in x (py_lower (or_empty (title p)))) PROPRIETARY_MARKERS_gen)
             (pages spec)"
      unfolding list_ex_iff [of _ "pages spec"] by blast
    then show ?thesis
      by (simp add: likely_proprietary_spec_def)
  qed
  then show "generate_scaffold g spec app_name model out_zip = ([], Inl PolicyViolation)"
    by (rule generate_aborts)
qed

text \<open>
  The hypotheses of C4 hold for a start URL on the host \<open>www.Instagram.com\<close> and for a UX
  spec with a page titled \<open>Log in to Facebook\<close>.
\<close>

theorem policy_abort_witness:
  "''instagram.com'' \<in> set PROPRIETARY_MARKERS_crawler
   \<and> contains_ci ''www.Instagram.com'' ''instagram.com''
   \<and> (\<exists>e. crawl (example_web\<lparr>netloc := \<lambda>u. ''www.Instagram.com''\<rparr>) ''https://www.Instagram.com/'' 10 2 ''out''
         = ([], Inl e))
   \<and> ''facebook'' \<in> set PROPRIETARY_MARKERS_gen
   \<and> contains_ci ''Log in to Facebook'' ''facebook''
   \<and> generate_scaffold example_gateway proprietary_spec ''App'' ''llama3.2:3b'' None
       = ([], Inl PolicyViolation)"
proof -
  let ?w = "example_web\<lparr>netloc := \<lambda>u. ''www.Instagram.com''\<rparr>"
  have m1: "''instagram.com'' \<in> set PROPRIETARY_MARKERS_crawler"
    by (simp add: PROPRIETARY_MARKERS_crawler_def)
  have "''www.Instagram.com'' = ''www.'' @ ''Instagram.com'' @ []"
    "py_lower ''Instagram.com'' = py_lower ''instagram.com''"
    by code_simp+
  then have c1: "contains_ci ''www.Instagram.com'' ''instagram.com''"
    unfolding contains_ci_def by blast
  have m2: "''facebook'' \<in> set PROPRIETARY_MARKERS_gen"
    by (simp add: PROPRIETARY_MARKERS_gen_def)
  have "''Log in to Facebook'' = ''Log in to '' @ ''Facebook'' @ []"
    "py_lower ''Facebook'' = py_lower ''facebook''"
    by code_simp+
  then have c2: "contains_ci ''Log in to Facebook'' ''facebook''"
    unfolding contains_ci_def by blast
  have n: "netloc ?w ''https://www.Instagram.com/'' = ''www.Instagram.com''"
    by simp
  have t: "or_empty (title (hd (pages proprietary_spec))) = ''Log in to Facebook''"
    "hd (pages proprietary_spec) \<in> set (pages proprietary_spec)"
    by (simp_all add: proprietary_spec_def)
  note pa = policy_abort [of ?w "''https://www.Instagram.com/''" 10 2 "''out''" proprietary_spec
      example_gateway "''App''" "''llama3.2:3b''" None]
  from pa m1 c1 n have a: "\<exists>e. crawl ?w ''https://www.Instagram.com/'' 10 2 ''out'' = ([], Inl e)"
    by (metis (no_types, lifting))
  from m2 c2 t have "\<exists>p \<in> set (pages proprietary_spec).
      \<exists>m \<in> set PROPRIETARY_MARKERS_gen. contains_ci (or_empty (title p)) m"
    by metis
  with pa have b: "generate_scaffold example_gateway proprietary_spec ''App'' ''llama3.2:3b'' None
       = ([], Inl PolicyViolation)"
    by (elim conjE) (erule mp, rule disjI2)
  from m1 c1 a m2 c2 b show ?thesis
    by (intro conjI)
qed

section \<open>The claim about the robots check\<close>

lemma link_loop_http:
  "link_loop (w\<lparr>http_get := g\<rparr>) start_url u hrefs links = link_loop w start_url u hrefs links"
  by (induction hrefs arbitrary: links) (simp_all add: Let_def)

lemma record_of_http:
  "record_of (w\<lparr>http_get := g\<rparr>) start_url out_dir k u = record_of w start_url out_dir k u"
  by (simp add: record_of_def Let_def page_links_def link_loop_http captured_content_def
      screenshot_path_def html_path_def safe_name_def)

lemma crawl_iteration_http:
  "crawl_iteration (w\<lparr>http_get := g\<rparr>) start_url max_pages max_depth out_dir s
     = crawl_iteration w start_url max_pages max_depth out_dir s"
  unfolding crawl_iteration_def record_of_http by (rule refl)

lemma crawl_loop_http:
  "crawl_loop (w\<lparr>http_get := g\<rparr>) start_url max_pages max_depth out_dir s
     = crawl_loop w start_url max_pages max_depth out_dir s"
proof (induction w start_url max_pages max_depth out_dir s rule: crawl_loop.induct)
  case (1 w start_url max_pages max_depth out_dir s)
  show ?case
  proof (cases "loop_cond max_pages s")
    case True
    have "crawl_loop (w\<lparr>http_get := g\<rparr>) start_url max_pages max_depth out_dir s
        = crawl_loop (w\<lparr>http_get := g\<rparr>) start_url max_pages max_depth out_dir
            (crawl_iteration w start_url max_pages max_depth out_dir s)"
      using True by (subst crawl_loop.simps) (simp add: crawl_iteration_http)
    also have "\<dots> = crawl_loop w start_url max_pages max_depth out_dir
            (crawl_iteration w start_url max_pages max_depth out_dir s)"
      by (rule "1.IH" [OF True])
    also have "\<dots> = crawl_loop w start_url max_pages max_depth out_dir s"
      using True by (subst (2) crawl_loop.simps) simp
    finally show ?thesis .
  next
    case False
    then show ?thesis
      by (subst crawl_loop.simps, subst (2) crawl_loop.simps) simp
  qed
qed

lemma crawl_http:
  "crawl (w\<lparr>http_get := g\<rparr>) start_url max_pages max_depth out_dir
     = crawl w start_url max_pages max_depth out_dir"
  by (simp add: crawl_def crawl_loop_http likely_proprietary_domain_def)

text \<open>
  Claim C3, amended. \<open>allowed_by_robots\<close> rejects a URL exactly when the \<open>robots.txt\<close> of
  its host is answered with status 200 and a text that contains \<open>disallow: /\<close> without
  regard to case; another status or a failed request is treated as allow. \<open>crawl\<close> does
  not call it: whatever the requests would answer, \<open>crawl\<close> fetches the same pages and
  returns the same result.
\<close>

theorem robots_check:
  "(\<forall>body. http_get w (scheme w u @ ''://'' @ netloc w u @ ''/robots.txt'') = HttpResponse 200 body \<longrightarrow>
      (allowed_by_robots w u \<longleftrightarrow> \<not> py_in ''disallow: /'' (py_lower body)))
   \<and> (\<forall>status body.
        http_get w (scheme w u @ ''://'' @ netloc w u @ ''/robots.txt'') = HttpResponse status body
        \<and> status \<noteq> 200 \<longrightarrow> allowed_by_robots w u)
   \<and> (http_get w (scheme w u @ ''://'' @ netloc w u @ ''/robots.txt'') = HttpError \<longrightarrow>
        allowed_by_robots w u)
   \<and> crawl (w\<lparr>http_get := g\<rparr>) u max_pages max_depth out_dir = crawl w u max_pages max_depth out_dir"
  by (simp add: allowed_by_robots_def Let_def crawl_http)

text \<open>
  Claim C3, as stated, fails. The \<open>robots.txt\<close> of the example site is answered with
  status 200 and disallows everything, so that \<open>allowed_by_robots\<close> rejects the start URL;
  yet \<open>crawl\<close> fetches the three pages of the site and returns a mapping.
\<close>

theorem robots_check_counterexample:
  "http_get example_web ''http://example.org/robots.txt''
     = HttpResponse 200 (''User-agent: *'' @ [CHR 0x0A] @ ''Disallow: /'')
   \<and> py_in ''disallow: /'' (py_lower (''User-agent: *'' @ [CHR 0x0A] @ ''Disallow: /''))
   \<and> \<not> allowed_by_robots example_web example_start
   \<and> \<not> likely_proprietary_domain example_web example_start
   \<and> fst (crawl example_web example_start 10 2 ''out'')
       = [(''http://example.org/'', 0), (''http://example.org/b'', 1), (''http://example.org/c'', 1)]
   \<and> \<not> isl (snd (crawl example_web example_start 10 2 ''out''))"
proof -
  have "http_get example_web ''http://example.org/robots.txt''
     = HttpResponse 200 (''User-agent: *'' @ [CHR 0x0A] @ ''Disallow: /'')"
    by (simp add: example_web_def)
  moreover have "py_in ''disallow: /'' (py_lower (''User-agent: *'' @ [CHR 0x0A] @ ''Disallow: /''))"
    by code_simp
  moreover have "\<not> allowed_by_robots example_web example_start"
    by code_simp
  moreover have "fst (crawl example_web example_start 10 2 ''out'')
       = [(''http://example.org/'', 0), (''http://example.org/b'', 1), (''http://example.org/c'', 1)]"
    by code_simp
  moreover have "\<not> isl (snd (crawl example_web example_start 10 2 ''out''))"
    by (simp add: example_run)
  ultimately show ?thesis
    using example_web_runs(2) by simp
qed

text \<open>
  The hypotheses of the amended C3 hold for the example site, and for the same site with a
  \<open>robots.txt\<close> answered with status 404 or not answered at all.
\<close>

theorem robots_check_witness:
  "http_get example_web (scheme example_web example_start @ ''://'' @ netloc example_web example_start
      @ ''/robots.txt'') = HttpResponse 200 (''User-agent: *'' @ [CHR 0x0A] @ ''Disallow: /'')
   \<and> py_in ''disallow: /'' (py_lower (''User-agent: *'' @ [CHR 0x0A] @ ''Disallow: /''))
   \<and> \<not> allowed_by_robots example_web example_start
   \<and> http_get (example_web\<lparr>http_get := \<lambda>u. HttpResponse 404 ''Not Found''\<rparr>)
        (scheme example_web example_start @ ''://'' @ netloc example_web example_start @ ''/robots.txt'')
       = HttpResponse 404 ''Not Found''
   \<and> allowed_by_robots (example_web\<lparr>http_get := \<lambda>u. HttpResponse 404 ''Not Found''\<rparr>) example_start
   \<and> allowed_by_robots (example_web\<lparr>http_get := \<lambda>u. HttpError\<rparr>) example_start"
proof -
  let ?url = "scheme example_web example_start @ ''://'' @ netloc example_web example_start @ ''/robots.txt''"
  let ?body = "''User-agent: *'' @ [CHR 0x0A] @ ''Disallow: /''"
  let ?w404 = "example_web\<lparr>http_get := \<lambda>u. HttpResponse 404 ''Not Found''\<rparr>"
  let ?werr = "example_web\<lparr>http_get := \<lambda>u. HttpError\<rparr>"
  have g: "http_get example_web ?url = HttpResponse 200 ?body"
    by (simp add: example_web_def)
  have d: "py_in ''disallow: /'' (py_lower ?body)"
    by code_simp
  from robots_check [of example_web example_start] g d
  have a: "\<not> allowed_by_robots example_web example_start"
    by blast
  have g404: "http_get ?w404 (scheme ?w404 example_start @ ''://'' @ netloc ?w404 example_start @ ''/robots.txt'')
      = HttpResponse 404 ''Not Found''" and ne: "(404::int) \<noteq> 200"
    by simp_all
  from robots_check [of ?w404 example_start] g404 ne
  have b: "allowed_by_robots ?w404 example_start"
    by blast
  have gerr: "http_get ?werr (scheme ?werr example_start @ ''://'' @ netloc ?werr example_start @ ''/robots.txt'')
      = HttpError"
    by simp
  from robots_check [of ?werr example_start] gerr
  have c: "allowed_by_robots ?werr example_start"
    by blast
  have g404': "http_get ?w404 ?url = HttpResponse 404 ''Not Found''"
    by simp
  from g d a g404' b c show ?thesis
    by (intro conjI)
qed

end
